theory Spec2Isabelle
  imports Complex_Main "HOL-Library.Word" "HOL-Library.Multiset"
begin

section \<open>Machine integers and arrays\<close>

text \<open>
  The program's \<^verbatim>\<open>int\<close> is a 32-bit two's complement integer: a \<open>32 word\<close>, read
  by \<open>sint\<close>, compared by the signed orders \<open><s\<close> and \<open>\<le>s\<close>, with \<open>+\<close> wrapping
  around. Array indices and sizes are \<^verbatim>\<open>int\<close> too; they are modelled as \<open>int\<close>
  because every index expression of the program stays between \<open>-1\<close> and the size of
  the array, far from the ends of the 32-bit range.

  An array (\<^verbatim>\<open>int*\<close> with the number of elements allocated behind it) is a list.
  Reading or writing outside the allocation is undefined behaviour in C++; the model
  makes it a result of its own, \<open>None\<close>.

  C++ division and remainder on \<^verbatim>\<open>int\<close> truncate towards zero (\<open>c_div\<close>, \<open>c_mod\<close>),
  where \<open>div\<close> and \<open>mod\<close> of HOL round down.
\<close>

definition c_div :: "int \<Rightarrow> int \<Rightarrow> int" where
  "c_div a b = sgn a * sgn b * (\<bar>a\<bar> div \<bar>b\<bar>)"

definition c_mod :: "int \<Rightarrow> int \<Rightarrow> int" where
  "c_mod a b = a - b * c_div a b"

type_synonym cint = "32 word"

definition rd :: "cint list \<Rightarrow> int \<Rightarrow> cint option" where
  "rd vs i = (if 0 \<le> i \<and> i < int (length vs) then Some (vs ! nat i) else None)"

definition wr :: "cint list \<Rightarrow> int \<Rightarrow> cint \<Rightarrow> cint list option" where
  "wr vs i v = (if 0 \<le> i \<and> i < int (length vs) then Some (vs[nat i := v]) else None)"

text \<open>\<^verbatim>\<open>std::swap(values[i], values[k])\<close>: two reads, then two writes.\<close>

definition swap :: "cint list \<Rightarrow> int \<Rightarrow> int \<Rightarrow> cint list option" where
  "swap vs i k =
     (case rd vs i of None \<Rightarrow> None | Some a \<Rightarrow>
       (case rd vs k of None \<Rightarrow> None | Some b \<Rightarrow>
         (case wr vs i b of None \<Rightarrow> None | Some vs' \<Rightarrow> wr vs' k a)))"

text \<open>A list is in ascending order when its elements, read as signed integers, are.\<close>

definition ascending :: "cint list \<Rightarrow> bool" where
  "ascending vs = sorted (map sint vs)"

section \<open>Sort primitive: \<^verbatim>\<open>selection_sort\<close>\<close>

text \<open>
  The inner loop \<^verbatim>\<open>for (int j = i + 1; j < size; ++j) if (values[j] < values[minIndex]) minIndex = j;\<close>
  as a function of the loop variables \<open>j\<close> and \<open>minIndex\<close>; it returns the final
  \<open>minIndex\<close>.
\<close>

function selection_sort_inner :: "cint list \<Rightarrow> int \<Rightarrow> int \<Rightarrow> int \<Rightarrow> int option" where
  "selection_sort_inner vs sz j minIndex =
     (if j < sz then
        (case rd vs j of None \<Rightarrow> None | Some a \<Rightarrow>
          (case rd vs minIndex of None \<Rightarrow> None | Some b \<Rightarrow>
             selection_sort_inner vs sz (j + 1) (if a <s b then j else minIndex)))
      else Some minIndex)"
  by pat_completeness auto
termination
  by (relation "measure (\<lambda>(vs, sz, j, minIndex). nat (sz - j))") auto

text \<open>
  The outer loop \<^verbatim>\<open>for (int i = 0; i < size - 1; ++i)\<close> as a function of \<open>i\<close> and of
  the array, which it returns as the loop leaves it.
\<close>

function selection_sort_outer :: "cint list \<Rightarrow> int \<Rightarrow> int \<Rightarrow> cint list option" where
  "selection_sort_outer vs sz i =
     (if i < sz - 1 then
        (case selection_sort_inner vs sz (i + 1) i of None \<Rightarrow> None | Some minIndex \<Rightarrow>
          (case swap vs i minIndex of None \<Rightarrow> None | Some vs' \<Rightarrow>
             selection_sort_outer vs' sz (i + 1)))
      else Some vs)"
  by pat_completeness auto
termination
  by (relation "measure (\<lambda>(vs, sz, i). nat (sz - 1 - i))") auto

definition selection_sort :: "cint list \<Rightarrow> int \<Rightarrow> cint list option" where
  "selection_sort vs sz = selection_sort_outer vs sz 0"

section \<open>Search primitive: \<^verbatim>\<open>binary_search\<close>\<close>

text \<open>
  A recursive call is made only when \<open>start \<le> end\<close>; then \<open>mid\<close> lies between the two
  bounds, which is what the termination proof uses.
\<close>

function binary_search_recursive :: "cint list \<Rightarrow> cint \<Rightarrow> int \<Rightarrow> int \<Rightarrow> bool option" where
  "binary_search_recursive vs key start end =
     (if start > end then Some False
      else
        let mid = start + c_div (end - start) 2 in
        (case rd vs mid of None \<Rightarrow> None | Some v \<Rightarrow>
           if v = key then Some True
           else if key <s v then binary_search_recursive vs key start (mid - 1)
           else binary_search_recursive vs key (mid + 1) end))"
  by pat_completeness auto
termination
  by (relation "measure (\<lambda>(vs, key, start, end). nat (end - start + 1))")
    (auto simp: c_div_def sgn_if)

definition binary_search :: "cint list \<Rightarrow> int \<Rightarrow> cint \<Rightarrow> bool option" where
  "binary_search vs sz key = binary_search_recursive vs key 0 (sz - 1)"

section \<open>The heap and the analyzer objects\<close>

text \<open>
  The store is the list of the arrays allocated so far; a pointer to an array is its
  position in that list. \<^verbatim>\<open>new int[n]\<close> appends an array of \<open>n\<close> elements, so the pointer
  it returns is different from every pointer in use. The elements of a new array are
  indeterminate in C++; the model fills them with 0, and \<open>cloneValues\<close> overwrites each
  of them before anything reads it. A negative \<open>n\<close> makes \<^verbatim>\<open>new\<close> throw
  \<^verbatim>\<open>std::bad_array_new_length\<close>, which nothing catches: the result is \<open>None\<close>.
\<close>

type_synonym addr = nat
type_synonym heap = "cint list list"

definition lookup :: "heap \<Rightarrow> addr \<Rightarrow> cint list option" where
  "lookup h p = (if p < length h then Some (h ! p) else None)"

definition store :: "heap \<Rightarrow> addr \<Rightarrow> cint list \<Rightarrow> heap" where
  "store h p a = h[p := a]"

definition new_array :: "heap \<Rightarrow> int \<Rightarrow> (heap \<times> addr) option" where
  "new_array h n = (if n < 0 then None else Some (h @ [replicate (nat n) 0], length h))"

text \<open>\<^verbatim>\<open>std::copy(src, src + n, dst)\<close> on two arrays that do not overlap.\<close>

definition std_copy :: "cint list \<Rightarrow> int \<Rightarrow> cint list \<Rightarrow> cint list option" where
  "std_copy src n dst =
     (if 0 \<le> n \<and> n \<le> int (length src) \<and> n \<le> int (length dst)
        then Some (take (nat n) src @ drop (nat n) dst)
      else None)"

text \<open>The two fields of the base class \<^verbatim>\<open>Analyzer\<close>: \<^verbatim>\<open>int* values\<close> and \<^verbatim>\<open>int size\<close>.\<close>

record Analyzer =
  a_values :: addr
  a_size :: int

text \<open>
  \<^verbatim>\<open>Analyzer::cloneValues\<close>, which is all the base constructor does: it sets \<open>size\<close>,
  allocates \<open>values\<close> and copies the caller's array, found at \<open>p\<close>, into it.
\<close>

definition cloneValues :: "heap \<Rightarrow> addr \<Rightarrow> int \<Rightarrow> (heap \<times> Analyzer) option" where
  "cloneValues h p sz =
     (case new_array h sz of None \<Rightarrow> None | Some (h1, q) \<Rightarrow>
       (case lookup h1 p of None \<Rightarrow> None | Some src \<Rightarrow>
         (case lookup h1 q of None \<Rightarrow> None | Some dst \<Rightarrow>
           (case std_copy src sz dst of None \<Rightarrow> None | Some dst' \<Rightarrow>
              Some (store h1 q dst', \<lparr>a_values = q, a_size = sz\<rparr>)))))"

text \<open>\<^verbatim>\<open>selection_sort(this->values, this->size)\<close>: the sort runs in place on the analyzer's array.\<close>

definition sort_own :: "heap \<Rightarrow> Analyzer \<Rightarrow> heap option" where
  "sort_own h a =
     (case lookup h (a_values a) of None \<Rightarrow> None | Some vs \<Rightarrow>
       (case selection_sort vs (a_size a) of None \<Rightarrow> None | Some vs' \<Rightarrow>
          Some (store h (a_values a) vs')))"

definition StatisticsAnalyzer_ctor :: "heap \<Rightarrow> addr \<Rightarrow> int \<Rightarrow> (heap \<times> Analyzer) option" where
  "StatisticsAnalyzer_ctor h p sz =
     (case cloneValues h p sz of None \<Rightarrow> None | Some (h1, a) \<Rightarrow>
       (case sort_own h1 a of None \<Rightarrow> None | Some h2 \<Rightarrow> Some (h2, a)))"

definition DuplicateAnalyzer_ctor :: "heap \<Rightarrow> addr \<Rightarrow> int \<Rightarrow> (heap \<times> Analyzer) option" where
  "DuplicateAnalyzer_ctor h p sz = cloneValues h p sz"

definition MissingAnalyzer_ctor :: "heap \<Rightarrow> addr \<Rightarrow> int \<Rightarrow> (heap \<times> Analyzer) option" where
  "MissingAnalyzer_ctor h p sz = cloneValues h p sz"

definition SearchAnalyzer_ctor :: "heap \<Rightarrow> addr \<Rightarrow> int \<Rightarrow> (heap \<times> Analyzer) option" where
  "SearchAnalyzer_ctor h p sz =
     (case cloneValues h p sz of None \<Rightarrow> None | Some (h1, a) \<Rightarrow>
       (case sort_own h1 a of None \<Rightarrow> None | Some h2 \<Rightarrow> Some (h2, a)))"

section \<open>The analyzers\<close>

subsection \<open>Hash maps\<close>

text \<open>
  A \<^verbatim>\<open>std::unordered_map<int, T>\<close> is a finite map \<open>cint \<rightharpoonup> T\<close>. \<^verbatim>\<open>m[k]++\<close> inserts
  \<open>k\<close> with the value 0 when it is missing, then adds 1. A count never exceeds the
  number of elements of the array, so it does not overflow and is an \<open>int\<close>.

  A range-based \<^verbatim>\<open>for\<close> over the map visits every entry once, in an order that the
  hash table decides and the language leaves open. The model takes that order as a
  parameter \<open>order\<close>, the list of the keys as the loop meets them; the loop reads
  the value of each key from the map.
\<close>

definition incr :: "(cint \<rightharpoonup> int) \<Rightarrow> cint \<Rightarrow> (cint \<rightharpoonup> int)" where
  "incr m k = m(k \<mapsto> (case m k of None \<Rightarrow> 0 | Some c \<Rightarrow> c) + 1)"

subsection \<open>\<^verbatim>\<open>StatisticsAnalyzer\<close>\<close>

text \<open>
  The report is a text; the model keeps the numbers that the text prints.
  \<^verbatim>\<open>"No data to analyze."\<close> is \<open>NoData\<close>. The mean and the median are \<^verbatim>\<open>double\<close>s in the
  program and real numbers here: the rounding of floating-point arithmetic is not
  modelled.
\<close>

record statistics =
  r_min :: cint
  r_max :: cint
  r_mean :: real
  r_median :: real
  r_mode :: cint
  r_maxFrequency :: int

datatype report = NoData | Statistics statistics

text \<open>
  \<^verbatim>\<open>for (int i = 0; i < size; ++i) { sum += values[i]; frequencyMap[values[i]]++; }\<close>
\<close>

function frequency_loop ::
  "cint list \<Rightarrow> int \<Rightarrow> int \<Rightarrow> real \<times> (cint \<rightharpoonup> int) \<Rightarrow> (real \<times> (cint \<rightharpoonup> int)) option" where
  "frequency_loop vs sz i (sumd, frequencyMap) =
     (if i < sz then
        (case rd vs i of None \<Rightarrow> None | Some v \<Rightarrow>
           frequency_loop vs sz (i + 1) (sumd + real_of_int (sint v), incr frequencyMap v))
      else Some (sumd, frequencyMap))"
  by pat_completeness auto
termination
  by (relation "measure (\<lambda>(vs, sz, i, acc). nat (sz - i))") auto

text \<open>
  \<^verbatim>\<open>for (const auto& pair : frequencyMap) if (pair.second > maxFrequency) { maxFrequency = pair.second; mode = pair.first; }\<close>
\<close>

fun mode_loop :: "(cint \<rightharpoonup> int) \<Rightarrow> cint list \<Rightarrow> cint \<times> int \<Rightarrow> cint \<times> int" where
  "mode_loop frequencyMap [] (mode, maxFrequency) = (mode, maxFrequency)"
| "mode_loop frequencyMap (k # order) (mode, maxFrequency) =
     (case frequencyMap k of
        None \<Rightarrow> mode_loop frequencyMap order (mode, maxFrequency)
      | Some c \<Rightarrow>
          if c > maxFrequency then mode_loop frequencyMap order (k, c)
          else mode_loop frequencyMap order (mode, maxFrequency))"

text \<open>
  The median: \<^verbatim>\<open>(size % 2 == 0) ? (values[size / 2 - 1] + values[size / 2]) / 2.0 : values[size / 2]\<close>.
  The two middle elements are added as \<^verbatim>\<open>int\<close>s, before the conversion to
  \<^verbatim>\<open>double\<close>; the model lets the sum wrap around, as the machine addition does.
\<close>

definition median_of :: "cint list \<Rightarrow> int \<Rightarrow> real option" where
  "median_of vs sz =
     (if c_mod sz 2 = 0 then
        (case rd vs (c_div sz 2 - 1) of None \<Rightarrow> None | Some x \<Rightarrow>
          (case rd vs (c_div sz 2) of None \<Rightarrow> None | Some y \<Rightarrow>
             Some (real_of_int (sint (x + y)) / 2)))
      else
        (case rd vs (c_div sz 2) of None \<Rightarrow> None | Some x \<Rightarrow> Some (real_of_int (sint x))))"

definition StatisticsAnalyzer_analyze :: "heap \<Rightarrow> Analyzer \<Rightarrow> cint list \<Rightarrow> report option" where
  "StatisticsAnalyzer_analyze h a order =
     (case lookup h (a_values a) of None \<Rightarrow> None | Some vs \<Rightarrow>
        if a_size a = 0 then Some NoData
        else
          (case rd vs 0 of None \<Rightarrow> None | Some mn \<Rightarrow>
            (case rd vs (a_size a - 1) of None \<Rightarrow> None | Some mx \<Rightarrow>
              (case frequency_loop vs (a_size a) 0 (0, Map.empty) of None \<Rightarrow> None
               | Some (sumd, frequencyMap) \<Rightarrow>
                  (case median_of vs (a_size a) of None \<Rightarrow> None | Some med \<Rightarrow>
                    (case mode_loop frequencyMap order (mn, 1) of (mode, maxFrequency) \<Rightarrow>
                       Some (Statistics
                         \<lparr>r_min = mn, r_max = mx, r_mean = sumd / real_of_int (a_size a),
                          r_median = med, r_mode = mode, r_maxFrequency = maxFrequency\<rparr>)))))))"

subsection \<open>\<^verbatim>\<open>DuplicateAnalyzer\<close>\<close>

text \<open>\<^verbatim>\<open>for (int i = 0; i < size; ++i) countMap[values[i]]++;\<close>\<close>

function count_loop :: "cint list \<Rightarrow> int \<Rightarrow> int \<Rightarrow> (cint \<rightharpoonup> int) \<Rightarrow> (cint \<rightharpoonup> int) option" where
  "count_loop vs sz i countMap =
     (if i < sz then
        (case rd vs i of None \<Rightarrow> None | Some v \<Rightarrow> count_loop vs sz (i + 1) (incr countMap v))
      else Some countMap)"
  by pat_completeness auto
termination
  by (relation "measure (\<lambda>(vs, sz, i, countMap). nat (sz - i))") auto

text \<open>
  \<^verbatim>\<open>for (const auto& pair : countMap) if (pair.second > 1) duplicateCount += pair.second - 1;\<close>
\<close>

fun duplicate_loop :: "(cint \<rightharpoonup> int) \<Rightarrow> cint list \<Rightarrow> int \<Rightarrow> int" where
  "duplicate_loop countMap [] duplicateCount = duplicateCount"
| "duplicate_loop countMap (k # order) duplicateCount =
     (case countMap k of
        None \<Rightarrow> duplicate_loop countMap order duplicateCount
      | Some c \<Rightarrow>
          if c > 1 then duplicate_loop countMap order (duplicateCount + (c - 1))
          else duplicate_loop countMap order duplicateCount)"

definition DuplicateAnalyzer_analyze :: "heap \<Rightarrow> Analyzer \<Rightarrow> cint list \<Rightarrow> int option" where
  "DuplicateAnalyzer_analyze h a order =
     (case lookup h (a_values a) of None \<Rightarrow> None | Some vs \<Rightarrow>
       (case count_loop vs (a_size a) 0 Map.empty of None \<Rightarrow> None | Some countMap \<Rightarrow>
          Some (duplicate_loop countMap order 0)))"

subsection \<open>\<^verbatim>\<open>MissingAnalyzer\<close>\<close>

text \<open>\<^verbatim>\<open>for (int i = 0; i < size; ++i) valueMap[values[i]] = true;\<close>\<close>

function value_loop :: "cint list \<Rightarrow> int \<Rightarrow> int \<Rightarrow> (cint \<rightharpoonup> bool) \<Rightarrow> (cint \<rightharpoonup> bool) option" where
  "value_loop vs sz i valueMap =
     (if i < sz then
        (case rd vs i of None \<Rightarrow> None | Some v \<Rightarrow> value_loop vs sz (i + 1) (valueMap(v \<mapsto> True)))
      else Some valueMap)"
  by pat_completeness auto
termination
  by (relation "measure (\<lambda>(vs, sz, i, valueMap). nat (sz - i))") auto

text \<open>
  \<^verbatim>\<open>for (int i = 0; i < 1000; ++i) if (valueMap.find(i) == valueMap.end()) missingCount++;\<close>
\<close>

function missing_loop :: "(cint \<rightharpoonup> bool) \<Rightarrow> int \<Rightarrow> int \<Rightarrow> int" where
  "missing_loop valueMap i missingCount =
     (if i < 1000 then
        missing_loop valueMap (i + 1)
          (if valueMap (word_of_int i) = None then missingCount + 1 else missingCount)
      else missingCount)"
  by pat_completeness auto
termination
  by (relation "measure (\<lambda>(valueMap, i, missingCount). nat (1000 - i))") auto

definition MissingAnalyzer_analyze :: "heap \<Rightarrow> Analyzer \<Rightarrow> int option" where
  "MissingAnalyzer_analyze h a =
     (case lookup h (a_values a) of None \<Rightarrow> None | Some vs \<Rightarrow>
       (case value_loop vs (a_size a) 0 Map.empty of None \<Rightarrow> None | Some valueMap \<Rightarrow>
          Some (missing_loop valueMap 0 0)))"

subsection \<open>\<^verbatim>\<open>SearchAnalyzer\<close>\<close>

text \<open>
  The state of the process-wide generator is the sequence of the numbers that
  \<^verbatim>\<open>rand()\<close> is still to return, each between 0 and \<^verbatim>\<open>RAND_MAX\<close>: a call returns the
  first one and leaves the rest. The numbers are not negative, so \<^verbatim>\<open>rand() % 1000\<close>
  is \<open>mod\<close>.
\<close>

type_synonym rng = "nat \<Rightarrow> nat"

definition rand :: "rng \<Rightarrow> nat \<times> rng" where
  "rand g = (g 0, \<lambda>i. g (Suc i))"

text \<open>
  \<^verbatim>\<open>for (int i = 0; i < 100; ++i) { int searchValue = rand() % 1000; if (binary_search(values, size, searchValue)) foundCount++; }\<close>
\<close>

function search_loop :: "cint list \<Rightarrow> int \<Rightarrow> int \<Rightarrow> int \<Rightarrow> rng \<Rightarrow> (int \<times> rng) option" where
  "search_loop vs sz i foundCount g =
     (if i < 100 then
        (case rand g of (r, g') \<Rightarrow>
          (case binary_search vs sz (word_of_nat (r mod 1000)) of None \<Rightarrow> None
           | Some found \<Rightarrow>
               search_loop vs sz (i + 1) (if found then foundCount + 1 else foundCount) g'))
      else Some (foundCount, g))"
  by pat_completeness auto
termination
  by (relation "measure (\<lambda>(vs, sz, i, foundCount, g). nat (100 - i))") auto

definition SearchAnalyzer_analyze :: "heap \<Rightarrow> Analyzer \<Rightarrow> rng \<Rightarrow> (int \<times> rng) option" where
  "SearchAnalyzer_analyze h a g =
     (case lookup h (a_values a) of None \<Rightarrow> None | Some vs \<Rightarrow> search_loop vs (a_size a) 0 0 g)"

subsection \<open>Constructing an analyzer and calling it, as \<^verbatim>\<open>main\<close> does\<close>

definition statistics_report :: "heap \<Rightarrow> addr \<Rightarrow> int \<Rightarrow> cint list \<Rightarrow> report option" where
  "statistics_report h p sz order =
     (case StatisticsAnalyzer_ctor h p sz of None \<Rightarrow> None
      | Some (h', sa) \<Rightarrow> StatisticsAnalyzer_analyze h' sa order)"

definition duplicate_report :: "heap \<Rightarrow> addr \<Rightarrow> int \<Rightarrow> cint list \<Rightarrow> int option" where
  "duplicate_report h p sz order =
     (case DuplicateAnalyzer_ctor h p sz of None \<Rightarrow> None
      | Some (h', da) \<Rightarrow> DuplicateAnalyzer_analyze h' da order)"

definition missing_report :: "heap \<Rightarrow> addr \<Rightarrow> int \<Rightarrow> int option" where
  "missing_report h p sz =
     (case MissingAnalyzer_ctor h p sz of None \<Rightarrow> None
      | Some (h', ma) \<Rightarrow> MissingAnalyzer_analyze h' ma)"

definition search_report :: "heap \<Rightarrow> addr \<Rightarrow> int \<Rightarrow> rng \<Rightarrow> (int \<times> rng) option" where
  "search_report h p sz g =
     (case SearchAnalyzer_ctor h p sz of None \<Rightarrow> None
      | Some (h', ra) \<Rightarrow> SearchAnalyzer_analyze h' ra g)"

section \<open>Predicates used in the proofs\<close>

text \<open>
  The invariant of the outer loop of the sort: each of the first \<open>i\<close> elements is at
  most every element that follows it.
\<close>

definition settled :: "cint list \<Rightarrow> nat \<Rightarrow> bool" where
  "settled vs i = (\<forall>a b. a < i \<and> a \<le> b \<and> b < length vs \<longrightarrow> sint (vs ! a) \<le> sint (vs ! b))"

text \<open>The first \<open>n\<close> elements are in ascending order, by index.\<close>

definition ordered_upto :: "cint list \<Rightarrow> int \<Rightarrow> bool" where
  "ordered_upto vs n = (\<forall>a b. 0 \<le> a \<and> a \<le> b \<and> b < n \<longrightarrow> sint (vs ! nat a) \<le> sint (vs ! nat b))"

text \<open>The number of occurrences of each value of a list, as a map: what the counting loops build.\<close>

definition counts :: "cint list \<Rightarrow> (cint \<rightharpoonup> int)" where
  "counts vs = (\<lambda>k. if k \<in> set vs then Some (int (count_list vs k)) else None)"

section \<open>Arrays and integer division\<close>

declare selection_sort_inner.simps [simp del] selection_sort_outer.simps [simp del]
declare binary_search_recursive.simps [simp del]
declare frequency_loop.simps [simp del] count_loop.simps [simp del] value_loop.simps [simp del]
declare missing_loop.simps [simp del] search_loop.simps [simp del]

lemma rd_Some: "0 \<le> i \<Longrightarrow> i < int (length vs) \<Longrightarrow> rd vs i = Some (vs ! nat i)"
  by (simp add: rd_def)

lemma swap_Some:
  "0 \<le> i \<Longrightarrow> i < int (length vs) \<Longrightarrow> 0 \<le> k \<Longrightarrow> k < int (length vs) \<Longrightarrow>
   swap vs i k = Some (vs[nat i := vs ! nat k, nat k := vs ! nat i])"
  by (simp add: swap_def rd_def wr_def)

lemma c_div_nonneg: "0 \<le> a \<Longrightarrow> c_div a 2 = a div 2"
  by (simp add: c_div_def sgn_if)

lemma c_mod_nonneg: "0 \<le> a \<Longrightarrow> c_mod a 2 = a mod 2"
  by (simp add: c_mod_def c_div_nonneg minus_mult_div_eq_mod)

section \<open>The sort is correct\<close>

lemma inner_correct:
  "0 \<le> i \<Longrightarrow> i \<le> m \<Longrightarrow> m < j \<Longrightarrow> j \<le> sz \<Longrightarrow> sz = int (length vs) \<Longrightarrow>
   (\<forall>t. i \<le> t \<and> t < j \<longrightarrow> sint (vs ! nat m) \<le> sint (vs ! nat t)) \<Longrightarrow>
   \<exists>k. selection_sort_inner vs sz j m = Some k \<and> i \<le> k \<and> k < sz \<and>
       (\<forall>t. i \<le> t \<and> t < sz \<longrightarrow> sint (vs ! nat k) \<le> sint (vs ! nat t))"
proof (induction vs sz j m rule: selection_sort_inner.induct)
  case (1 vs sz j m)
  show ?case
  proof (cases "j < sz")
    case False
    with "1.prems" show ?thesis
      by (subst selection_sort_inner.simps) auto
  next
    case True
    let ?m' = "if vs ! nat j <s vs ! nat m then j else m"
    have rj: "rd vs j = Some (vs ! nat j)" and rm: "rd vs m = Some (vs ! nat m)"
      using True "1.prems" by (auto intro!: rd_Some)
    have step: "selection_sort_inner vs sz j m = selection_sort_inner vs sz (j + 1) ?m'"
      using True rj rm by (subst selection_sort_inner.simps) simp
    have inv: "\<forall>t. i \<le> t \<and> t < j + 1 \<longrightarrow> sint (vs ! nat ?m') \<le> sint (vs ! nat t)"
    proof (intro allI impI)
      fix t assume t: "i \<le> t \<and> t < j + 1"
      show "sint (vs ! nat ?m') \<le> sint (vs ! nat t)"
      proof (cases "t = j")
        case True
        then show ?thesis by (auto simp: word_sless_alt)
      next
        case False
        with t have "sint (vs ! nat m) \<le> sint (vs ! nat t)" using "1.prems" by auto
        then show ?thesis by (auto simp: word_sless_alt)
      qed
    qed
    have "\<exists>k. selection_sort_inner vs sz (j + 1) ?m' = Some k \<and> i \<le> k \<and> k < sz \<and>
       (\<forall>t. i \<le> t \<and> t < sz \<longrightarrow> sint (vs ! nat k) \<le> sint (vs ! nat t))"
      using True "1.prems" inv
      by (intro "1.IH"[OF True rj rm]) auto
    with step show ?thesis by simp
  qed
qed


lemma settled_step:
  assumes s: "settled vs i" and i: "i \<le> k" and k: "k < length vs"
    and mn: "\<forall>t. i \<le> t \<and> t < length vs \<longrightarrow> sint (vs ! k) \<le> sint (vs ! t)"
  shows "settled (vs[i := vs ! k, k := vs ! i]) (Suc i)"
  unfolding settled_def
proof (intro allI impI)
  fix a b assume ab: "a < Suc i \<and> a \<le> b \<and> b < length (vs[i := vs ! k, k := vs ! i])"
  let ?ws = "vs[i := vs ! k, k := vs ! i]"
  have il: "i < length vs" using i k by simp
  have ge: "\<And>t. i \<le> t \<Longrightarrow> t < length vs \<Longrightarrow> sint (vs ! k) \<le> sint (?ws ! t)"
    using mn il k by (auto simp: nth_list_update)
  show "sint (?ws ! a) \<le> sint (?ws ! b)"
  proof (cases "a = i")
    case True
    have "?ws ! a = vs ! k" using True il k by (auto simp: nth_list_update)
    with ge[of b] ab True show ?thesis by simp
  next
    case False
    with ab have ai: "a < i" by simp
    then have wa: "?ws ! a = vs ! a" using i by (simp add: nth_list_update)
    show ?thesis
    proof (cases "b < i")
      case True
      then have "?ws ! b = vs ! b" using i by (simp add: nth_list_update)
      with wa s ai ab show ?thesis by (simp add: settled_def)
    next
      case False
      have "?ws ! b \<in> {vs ! b, vs ! k, vs ! i}" using ab il k by (auto simp: nth_list_update)
      moreover have "sint (vs ! a) \<le> sint (vs ! b)" "sint (vs ! a) \<le> sint (vs ! k)" "sint (vs ! a) \<le> sint (vs ! i)"
        using s ai ab i k il by (auto simp: settled_def)
      ultimately show ?thesis using wa by auto
    qed
  qed
qed

lemma outer_correct:
  "0 \<le> i \<Longrightarrow> sz = int (length vs) \<Longrightarrow> settled vs (nat i) \<Longrightarrow>
   \<exists>ws. selection_sort_outer vs sz i = Some ws \<and> mset ws = mset vs \<and> ascending ws"
proof (induction vs sz i rule: selection_sort_outer.induct)
  case (1 vs sz i)
  show ?case
  proof (cases "i < sz - 1")
    case False
    have "sorted (map sint vs)"
      unfolding sorted_iff_nth_mono
    proof (intro allI impI)
      fix a b assume "a \<le> b" "b < length (map sint vs)"
      then show "map sint vs ! a \<le> map sint vs ! b"
        using False "1.prems" by (cases "a = b") (auto simp: settled_def)
    qed
    with False show ?thesis
      by (subst selection_sort_outer.simps) (simp add: ascending_def)
  next
    case True
    obtain k where k: "selection_sort_inner vs sz (i + 1) i = Some k" "i \<le> k" "k < sz"
      "\<forall>t. i \<le> t \<and> t < sz \<longrightarrow> sint (vs ! nat k) \<le> sint (vs ! nat t)"
    proof -
      have "\<forall>t. i \<le> t \<and> t < i + 1 \<longrightarrow> sint (vs ! nat i) \<le> sint (vs ! nat t)"
      proof (intro allI impI)
        fix t assume "i \<le> t \<and> t < i + 1"
        then have "t = i" by simp
        then show "sint (vs ! nat i) \<le> sint (vs ! nat t)" by simp
      qed
      with inner_correct[of i i "i + 1" sz vs] True "1.prems" that show ?thesis by auto
    qed
    let ?ws = "vs[nat i := vs ! nat k, nat k := vs ! nat i]"
    have sw: "swap vs i k = Some ?ws"
      using k True "1.prems" by (intro swap_Some) auto
    have step: "selection_sort_outer vs sz i = selection_sort_outer ?ws sz (i + 1)"
      using True k sw by (subst selection_sort_outer.simps) simp
    have mn: "\<forall>t. nat i \<le> t \<and> t < length vs \<longrightarrow> sint (vs ! nat k) \<le> sint (vs ! t)"
    proof (intro allI impI)
      fix t assume "nat i \<le> t \<and> t < length vs"
      then have "i \<le> int t \<and> int t < sz" using "1.prems" by auto
      with k(4) have "sint (vs ! nat k) \<le> sint (vs ! nat (int t))" by blast
      then show "sint (vs ! nat k) \<le> sint (vs ! t)" by simp
    qed
    have "settled ?ws (Suc (nat i))"
      using "1.prems" k mn by (intro settled_step) auto
    then have st: "settled ?ws (nat (i + 1))" using "1.prems" by (simp add: nat_add_distrib)
    have ms: "mset ?ws = mset vs"
      using k True "1.prems" by (simp add: mset_swap)
    have "\<exists>ws. selection_sort_outer ?ws sz (i + 1) = Some ws \<and> mset ws = mset ?ws \<and> ascending ws"
      using "1.prems" st by (intro "1.IH"[OF True k(1) sw]) auto
    with step ms show ?thesis by simp
  qed
qed


lemma selection_sort_total:
  "\<exists>ws. selection_sort vs (int (length vs)) = Some ws \<and> ascending ws \<and> mset ws = mset vs"
proof -
  have "settled vs (nat 0)" by (simp add: settled_def)
  then show ?thesis
    using outer_correct[of 0 "int (length vs)" vs] by (auto simp: selection_sort_def)
qed

text \<open>
  C1: for a sequence \<open>vs\<close> and its length, \<open>selection_sort\<close> returns, and what it returns
  is in non-decreasing order and is a permutation of \<open>vs\<close>: the same multiset of values,
  the same length. A sequence of length 0 or 1 is returned as it is.
\<close>

theorem selection_sort_sorted_permutation:
  "\<exists>ws. selection_sort vs (int (length vs)) = Some ws \<and> ascending ws \<and>
        mset ws = mset vs \<and> length ws = length vs \<and> (length vs \<le> 1 \<longrightarrow> ws = vs)"
proof -
  obtain ws where ws: "selection_sort vs (int (length vs)) = Some ws"
      "ascending ws" "mset ws = mset vs"
    using selection_sort_total[of vs] by blast
  have len: "length ws = length vs" using ws(3) by (rule mset_eq_length)
  have small: "ws = vs" if "length vs \<le> 1"
  proof -
    have "selection_sort vs (int (length vs)) = Some vs"
      using that by (simp add: selection_sort_def selection_sort_outer.simps)
    with ws(1) show ?thesis by simp
  qed
  from ws len small show ?thesis by blast
qed

theorem selection_sort_sorted_permutation_witness:
  "selection_sort [7] 1 = Some [7] \<and>
   (\<exists>ws. selection_sort [3, -1, 2] 3 = Some ws \<and> ascending ws \<and> mset ws = mset [3, -1, 2])"
  using selection_sort_sorted_permutation[of "[7]"]
    selection_sort_sorted_permutation[of "[3, -1, 2]"]
  by auto

section \<open>The search is correct\<close>

lemma bsr_correct:
  "0 \<le> s \<Longrightarrow> e < n \<Longrightarrow> n \<le> int (length vs) \<Longrightarrow> ordered_upto vs n \<Longrightarrow>
   binary_search_recursive vs key s e = Some (\<exists>t. s \<le> t \<and> t \<le> e \<and> vs ! nat t = key)"
proof (induction vs key s e rule: binary_search_recursive.induct)
  case (1 vs key s e)
  show ?case
  proof (cases "s > e")
    case True
    then show ?thesis by (subst binary_search_recursive.simps) auto
  next
    case False
    define mid where "mid = s + c_div (e - s) 2"
    have mid: "s \<le> mid" "mid \<le> e" using False by (auto simp: mid_def c_div_nonneg)
    have r: "rd vs mid = Some (vs ! nat mid)" using mid "1.prems" by (intro rd_Some) auto
    let ?v = "vs ! nat mid"
    have le: "\<And>a b. 0 \<le> a \<Longrightarrow> a \<le> b \<Longrightarrow> b < n \<Longrightarrow> sint (vs ! nat a) \<le> sint (vs ! nat b)"
      using "1.prems" by (auto simp: ordered_upto_def)
    show ?thesis
    proof (cases "?v = key")
      case True
      have "binary_search_recursive vs key s e = Some True"
        using False r True by (subst binary_search_recursive.simps) (simp add: mid_def Let_def)
      moreover have "\<exists>t. s \<le> t \<and> t \<le> e \<and> vs ! nat t = key" using mid True by blast
      ultimately show ?thesis by simp
    next
      case neq: False
      show ?thesis
      proof (cases "key <s ?v")
        case True
        have step: "binary_search_recursive vs key s e = binary_search_recursive vs key s (mid - 1)"
          using False r neq True by (subst binary_search_recursive.simps) (simp add: mid_def Let_def)
        have "binary_search_recursive vs key s (mid - 1) = Some (\<exists>t. s \<le> t \<and> t \<le> mid - 1 \<and> vs ! nat t = key)"
          using "1.prems" mid True neq
          by (intro "1.IH"(1)[OF False mid_def r neq]) auto
        moreover have "(\<exists>t. s \<le> t \<and> t \<le> mid - 1 \<and> vs ! nat t = key) = (\<exists>t. s \<le> t \<and> t \<le> e \<and> vs ! nat t = key)"
        proof -
          have "\<not> (mid \<le> t \<and> t \<le> e \<and> vs ! nat t = key)" for t
          proof
            assume t: "mid \<le> t \<and> t \<le> e \<and> vs ! nat t = key"
            then have "sint ?v \<le> sint (vs ! nat t)" using le[of mid t] mid "1.prems" by auto
            with t True show False by (simp add: word_sless_alt)
          qed
          then have no: "t \<le> mid - 1" if "s \<le> t \<and> t \<le> e \<and> vs ! nat t = key" for t
            using that by (cases "mid \<le> t") auto
          show ?thesis
          proof
            assume "\<exists>t. s \<le> t \<and> t \<le> mid - 1 \<and> vs ! nat t = key"
            then obtain t where "s \<le> t \<and> t \<le> mid - 1 \<and> vs ! nat t = key" by blast
            with mid have "s \<le> t \<and> t \<le> e \<and> vs ! nat t = key" by simp
            then show "\<exists>t. s \<le> t \<and> t \<le> e \<and> vs ! nat t = key" by blast
          next
            assume "\<exists>t. s \<le> t \<and> t \<le> e \<and> vs ! nat t = key"
            then obtain t where t: "s \<le> t \<and> t \<le> e \<and> vs ! nat t = key" by blast
            with no[of t] show "\<exists>t. s \<le> t \<and> t \<le> mid - 1 \<and> vs ! nat t = key" by blast
          qed
        qed
        ultimately show ?thesis using step by simp
      next
        case gt: False
        have step: "binary_search_recursive vs key s e = binary_search_recursive vs key (mid + 1) e"
          using False r neq gt by (subst binary_search_recursive.simps) (simp add: mid_def Let_def)
        have "binary_search_recursive vs key (mid + 1) e = Some (\<exists>t. mid + 1 \<le> t \<and> t \<le> e \<and> vs ! nat t = key)"
          using "1.prems" mid gt neq
          by (intro "1.IH"(2)[OF False mid_def r neq]) auto
        moreover have "(\<exists>t. mid + 1 \<le> t \<and> t \<le> e \<and> vs ! nat t = key) = (\<exists>t. s \<le> t \<and> t \<le> e \<and> vs ! nat t = key)"
        proof -
          have lt: "sint ?v < sint key" using gt neq by (auto simp: word_sless_alt not_less order_le_less dest: signed_word_eqI)
          have "\<not> (s \<le> t \<and> t \<le> mid \<and> vs ! nat t = key)" for t
          proof
            assume t: "s \<le> t \<and> t \<le> mid \<and> vs ! nat t = key"
            then have "sint (vs ! nat t) \<le> sint ?v" using le[of t mid] mid "1.prems" by auto
            with t lt show False by simp
          qed
          then have no: "mid + 1 \<le> t" if "s \<le> t \<and> t \<le> e \<and> vs ! nat t = key" for t
            using that by (cases "t \<le> mid") auto
          show ?thesis
          proof
            assume "\<exists>t. mid + 1 \<le> t \<and> t \<le> e \<and> vs ! nat t = key"
            then obtain t where "mid + 1 \<le> t \<and> t \<le> e \<and> vs ! nat t = key" by blast
            with mid have "s \<le> t \<and> t \<le> e \<and> vs ! nat t = key" by simp
            then show "\<exists>t. s \<le> t \<and> t \<le> e \<and> vs ! nat t = key" by blast
          next
            assume "\<exists>t. s \<le> t \<and> t \<le> e \<and> vs ! nat t = key"
            then obtain t where t: "s \<le> t \<and> t \<le> e \<and> vs ! nat t = key" by blast
            with no[of t] show "\<exists>t. mid + 1 \<le> t \<and> t \<le> e \<and> vs ! nat t = key" by blast
          qed
        qed
        ultimately show ?thesis using step by simp
      qed
    qed
  qed
qed


lemma ascending_take_ordered_upto:
  assumes "0 \<le> n" "n \<le> int (length vs)" "ascending (take (nat n) vs)"
  shows "ordered_upto vs n"
  unfolding ordered_upto_def
proof (intro allI impI)
  fix a b assume ab: "0 \<le> a \<and> a \<le> b \<and> b < n"
  let ?xs = "map sint (take (nat n) vs)"
  have "sorted ?xs" using assms(3) by (simp add: ascending_def)
  moreover have "nat a \<le> nat b" "nat b < length ?xs" using ab assms by auto
  ultimately have "?xs ! nat a \<le> ?xs ! nat b" by (rule sorted_nth_mono)
  then show "sint (vs ! nat a) \<le> sint (vs ! nat b)" using ab assms by simp
qed

lemma in_take_iff:
  assumes "0 \<le> n" "n \<le> int (length vs)"
  shows "(\<exists>t. 0 \<le> t \<and> t \<le> n - 1 \<and> vs ! nat t = key) = (key \<in> set (take (nat n) vs))"
proof
  assume "\<exists>t. 0 \<le> t \<and> t \<le> n - 1 \<and> vs ! nat t = key"
  then obtain t where t: "0 \<le> t" "t \<le> n - 1" "vs ! nat t = key" by blast
  then have "nat t < length (take (nat n) vs)" "take (nat n) vs ! nat t = key"
    using assms by auto
  then show "key \<in> set (take (nat n) vs)" by (metis nth_mem)
next
  assume "key \<in> set (take (nat n) vs)"
  then obtain j where j: "j < length (take (nat n) vs)" "take (nat n) vs ! j = key"
    by (auto simp: in_set_conv_nth)
  then have "0 \<le> int j \<and> int j \<le> n - 1 \<and> vs ! nat (int j) = key" using assms by auto
  then show "\<exists>t. 0 \<le> t \<and> t \<le> n - 1 \<and> vs ! nat t = key" by blast
qed

lemma binary_search_correct:
  assumes "0 \<le> n" "n \<le> int (length vs)" "ascending (take (nat n) vs)"
  shows "binary_search vs n key = Some (key \<in> set (take (nat n) vs))"
proof -
  have "binary_search_recursive vs key 0 (n - 1)
      = Some (\<exists>t. 0 \<le> t \<and> t \<le> n - 1 \<and> vs ! nat t = key)"
    using assms by (intro bsr_correct[where n = n] ascending_take_ordered_upto) auto
  then show ?thesis
    by (simp only: binary_search_def in_take_iff[OF assms(1,2)])
qed

text \<open>
  C2: on an array whose first \<open>n\<close> elements are in ascending order, \<open>binary_search\<close>
  with the size \<open>n\<close> returns, and returns true exactly when the key is one of these
  \<open>n\<close> elements. With \<open>n = 0\<close> it returns false for every key, and the recursion
  returns false as soon as \<open>start\<close> exceeds \<open>end\<close>.
\<close>

theorem binary_search_iff_member:
  "(0 \<le> n \<and> n \<le> int (length vs) \<and> ascending (take (nat n) vs) \<longrightarrow>
      binary_search vs n key = Some (key \<in> set (take (nat n) vs))) \<and>
   binary_search vs 0 key = Some False \<and>
   (end < start \<longrightarrow> binary_search_recursive vs key start end = Some False)"
proof (intro conjI impI)
  assume "0 \<le> n \<and> n \<le> int (length vs) \<and> ascending (take (nat n) vs)"
  then show "binary_search vs n key = Some (key \<in> set (take (nat n) vs))"
    by (simp add: binary_search_correct)
next
  show "binary_search vs 0 key = Some False"
    by (simp add: binary_search_def binary_search_recursive.simps)
next
  assume "end < start"
  then show "binary_search_recursive vs key start end = Some False"
    by (simp add: binary_search_recursive.simps)
qed

theorem binary_search_iff_member_witness:
  "binary_search [-5, 3, 5, 7] 4 5 = Some True \<and> binary_search [-5, 3, 5, 7] 4 4 = Some False \<and>
   binary_search [] 0 4 = Some False \<and> binary_search_recursive [-5, 3, 5, 7] 5 2 1 = Some False"
proof -
  have a: "ascending (take (nat 4) [-5, 3, 5, 7])" by (simp add: ascending_def)
  show ?thesis
    using a binary_search_iff_member[of 4 "[-5, 3, 5, 7]" 5 1 2]
      binary_search_iff_member[of 4 "[-5, 3, 5, 7]" 4 1 2]
      binary_search_iff_member[of 0 "[]" 4 0 1]
    by simp
qed

section \<open>The constructors\<close>

lemma lookup_old: "p < length h \<Longrightarrow> lookup (h @ [a]) p = Some (h ! p)"
  by (simp add: lookup_def nth_append)

lemma lookup_new: "lookup (h @ [a]) (length h) = Some a"
  by (simp add: lookup_def)

lemma lookup_SomeD: "lookup h p = Some vs \<Longrightarrow> p < length h \<and> h ! p = vs"
  by (simp add: lookup_def split: if_splits)

lemma cloneValues_Some:
  assumes "lookup h p = Some vs" "0 \<le> n" "n \<le> int (length vs)"
  shows "cloneValues h p n = Some (h @ [take (nat n) vs], \<lparr>a_values = length h, a_size = n\<rparr>)"
proof -
  have p: "p < length h" "h ! p = vs" using assms(1) by (auto dest: lookup_SomeD)
  have na: "new_array h n = Some (h @ [replicate (nat n) 0], length h)"
    using assms(2) by (simp add: new_array_def)
  have cp: "std_copy vs n (replicate (nat n) 0) = Some (take (nat n) vs)"
    using assms(2,3) by (simp add: std_copy_def)
  have st: "store (h @ [replicate (nat n) 0]) (length h) (take (nat n) vs) = h @ [take (nat n) vs]"
    by (simp add: store_def)
  show ?thesis
    by (simp add: cloneValues_def na lookup_old p lookup_new cp st)
qed

lemma filter_eq_key: "filter (\<lambda>x. k = x) xs = replicate (count_list xs k) k"
  by (induction xs) auto

lemma selection_sort_sort_key: "selection_sort vs (int (length vs)) = Some (sort_key sint vs)"
proof -
  obtain ws where ws: "selection_sort vs (int (length vs)) = Some ws" "ascending ws" "mset ws = mset vs"
    using selection_sort_total[of vs] by blast
  have "sort_key sint vs = ws"
  proof (rule properties_for_sort_key)
    show "mset ws = mset vs" by (rule ws(3))
    show "sorted (map sint ws)" using ws(2) by (simp add: ascending_def)
    fix k assume "k \<in> set ws"
    have "count_list ws k = count_list vs k" using ws(3) by (metis count_mset)
    then show "filter (\<lambda>x. sint k = sint x) ws = filter (\<lambda>x. sint k = sint x) vs"
      by (simp add: filter_eq_key flip: word_eq_iff_signed)
  qed
  with ws(1) show ?thesis by simp
qed


lemma sort_own_Some:
  shows "sort_own (h @ [vs]) \<lparr>a_values = length h, a_size = int (length vs)\<rparr>
     = Some (h @ [sort_key sint vs])"
  by (simp add: sort_own_def lookup_new selection_sort_sort_key store_def)

lemma sorting_ctor_Some:
  assumes "lookup h p = Some vs" "0 \<le> n" "n \<le> int (length vs)"
  shows "StatisticsAnalyzer_ctor h p n
     = Some (h @ [sort_key sint (take (nat n) vs)], \<lparr>a_values = length h, a_size = n\<rparr>)"
    and "SearchAnalyzer_ctor h p n
     = Some (h @ [sort_key sint (take (nat n) vs)], \<lparr>a_values = length h, a_size = n\<rparr>)"
proof -
  have "int (length (take (nat n) vs)) = n" using assms(2,3) by simp
  then have "sort_own (h @ [take (nat n) vs]) \<lparr>a_values = length h, a_size = n\<rparr>
     = Some (h @ [sort_key sint (take (nat n) vs)])"
    using sort_own_Some[of h "take (nat n) vs"] by simp
  then show "StatisticsAnalyzer_ctor h p n
     = Some (h @ [sort_key sint (take (nat n) vs)], \<lparr>a_values = length h, a_size = n\<rparr>)"
    and "SearchAnalyzer_ctor h p n
     = Some (h @ [sort_key sint (take (nat n) vs)], \<lparr>a_values = length h, a_size = n\<rparr>)"
    by (simp_all add: StatisticsAnalyzer_ctor_def SearchAnalyzer_ctor_def cloneValues_Some[OF assms])
qed

text \<open>
  C9: each of the four constructors, given the caller's array at \<open>p\<close> and a size within
  it, returns; the store it leaves has the caller's array, and every other array that
  existed, as they were; the analyzer's own array is a new one, at an address that was
  not in use, holding the same multiset of values as the caller's first \<open>n\<close> elements;
  and a later write to any array that existed before does not change the analyzer's.
\<close>

theorem constructors_copy:
  assumes "lookup h p = Some vs" "0 \<le> n" "n \<le> int (length vs)"
  shows "\<forall>ctor \<in> set [StatisticsAnalyzer_ctor, DuplicateAnalyzer_ctor, MissingAnalyzer_ctor,
            SearchAnalyzer_ctor].
         \<exists>h' a own. ctor h p n = Some (h', a) \<and>
           lookup h' p = Some vs \<and> (\<forall>q<length h. lookup h' q = lookup h q) \<and>
           length h \<le> a_values a \<and> a_values a \<noteq> p \<and>
           lookup h' (a_values a) = Some own \<and> mset own = mset (take (nat n) vs) \<and>
           (\<forall>q<length h. \<forall>x. lookup (store h' q x) (a_values a) = Some own)"
proof -
  have p: "p < length h" "h ! p = vs" using assms(1) by (auto dest: lookup_SomeD)
  have frame: "lookup (h @ [own]) p = Some vs \<and> (\<forall>q<length h. lookup (h @ [own]) q = lookup h q) \<and>
      length h \<le> a_values \<lparr>a_values = length h, a_size = n\<rparr> \<and>
      a_values \<lparr>a_values = length h, a_size = n\<rparr> \<noteq> p \<and>
      lookup (h @ [own]) (a_values \<lparr>a_values = length h, a_size = n\<rparr>) = Some own \<and>
      (\<forall>q<length h. \<forall>x. lookup (store (h @ [own]) q x)
          (a_values \<lparr>a_values = length h, a_size = n\<rparr>) = Some own)" for own
    using p by (auto simp: lookup_def store_def nth_append nth_list_update)
  let ?P = "\<lambda>ctor. \<exists>h' a own. ctor h p n = Some (h', a) \<and>
           lookup h' p = Some vs \<and> (\<forall>q<length h. lookup h' q = lookup h q) \<and>
           length h \<le> a_values a \<and> a_values a \<noteq> p \<and>
           lookup h' (a_values a) = Some own \<and> mset own = mset (take (nat n) vs) \<and>
           (\<forall>q<length h. \<forall>x. lookup (store h' q x) (a_values a) = Some own)"
  have ex: "?P ctor"
    if "ctor h p n = Some (h @ [own], \<lparr>a_values = length h, a_size = n\<rparr>)"
      "mset own = mset (take (nat n) vs)" for ctor own
    using that frame[of own] by blast
  have 1: "?P StatisticsAnalyzer_ctor"
    by (rule ex[of _ "sort_key sint (take (nat n) vs)"]) (simp_all add: sorting_ctor_Some(1)[OF assms])
  have 2: "?P DuplicateAnalyzer_ctor"
    by (rule ex[of _ "take (nat n) vs"])
      (simp_all add: DuplicateAnalyzer_ctor_def cloneValues_Some[OF assms])
  have 3: "?P MissingAnalyzer_ctor"
    by (rule ex[of _ "take (nat n) vs"])
      (simp_all add: MissingAnalyzer_ctor_def cloneValues_Some[OF assms])
  have 4: "?P SearchAnalyzer_ctor"
    by (rule ex[of _ "sort_key sint (take (nat n) vs)"]) (simp_all add: sorting_ctor_Some(2)[OF assms])
  show ?thesis using 1 2 3 4 by simp
qed

theorem constructors_copy_witness:
  "\<exists>h' a. StatisticsAnalyzer_ctor [[3, 1, 2]] 0 3 = Some (h', a) \<and>
      lookup h' 0 = Some [3, 1, 2] \<and> a_values a \<noteq> 0 \<and> 
      (\<exists>own. lookup h' (a_values a) = Some own \<and> mset own = mset [3, 1, 2])"
proof -
  have l: "lookup [[3, 1, 2]] 0 = Some [3, 1, 2]" by (simp add: lookup_def)
  show ?thesis
    using constructors_copy[OF l, of 3] by simp blast
qed

section \<open>\<^verbatim>\<open>StatisticsAnalyzer\<close>: the empty input\<close>

text \<open>
  C8: constructed with the size 0, the analyzer reports \<open>NoData\<close>, the sentinel, which
  holds none of the measures.
\<close>

theorem statistics_empty_no_data:
  assumes "lookup h p = Some vs"
  shows "statistics_report h p 0 order = Some NoData"
  using sorting_ctor_Some(1)[OF assms, of 0]
  by (simp add: statistics_report_def StatisticsAnalyzer_analyze_def lookup_new)


theorem statistics_empty_no_data_witness:
  "statistics_report [[]] 0 0 [] = Some NoData"
proof -
  have l: "lookup [[]] 0 = Some []" by (simp add: lookup_def)
  show ?thesis using statistics_empty_no_data[OF l] by simp
qed

section \<open>The counting loops and the mode loop\<close>

lemma fold_incr:
  "fold (\<lambda>v m. incr m v) vs m k =
     (if k \<in> set vs then Some ((case m k of None \<Rightarrow> 0 | Some c \<Rightarrow> c) + int (count_list vs k))
      else m k)"
  by (induction vs arbitrary: m) (auto simp: incr_def)

lemma fold_incr_empty: "fold (\<lambda>v m. incr m v) vs Map.empty = counts vs"
  by (rule ext) (simp add: fold_incr counts_def)

lemma counts_mset: "mset ws = mset vs \<Longrightarrow> counts ws = counts vs"
proof (rule ext)
  fix k assume eq: "mset ws = mset vs"
  then have "set ws = set vs" by (rule mset_eq_setD)
  moreover have "count_list ws k = count_list vs k" using eq by (metis count_mset)
  ultimately show "counts ws k = counts vs k" by (simp add: counts_def)
qed

lemma frequency_loop_eq:
  "0 \<le> i \<Longrightarrow> i \<le> sz \<Longrightarrow> sz = int (length vs) \<Longrightarrow>
   frequency_loop vs sz i (s, m) =
     Some (s + (\<Sum>x\<leftarrow>drop (nat i) vs. real_of_int (sint x)), fold (\<lambda>v m. incr m v) (drop (nat i) vs) m)"
proof (induction vs sz i "(s, m)" arbitrary: s m rule: frequency_loop.induct)
  case (1 vs sz i s m)
  show ?case
  proof (cases "i < sz")
    case False
    with "1.prems" show ?thesis by (subst frequency_loop.simps) simp
  next
    case True
    have r: "rd vs i = Some (vs ! nat i)" using True "1.prems" by (intro rd_Some) auto
    have d: "drop (nat i) vs = vs ! nat i # drop (nat (i + 1)) vs"
      using True "1.prems" by (simp add: Cons_nth_drop_Suc nat_add_distrib)
    have "frequency_loop vs sz i (s, m) =
        frequency_loop vs sz (i + 1) (s + real_of_int (sint (vs ! nat i)), incr m (vs ! nat i))"
      using True r by (subst frequency_loop.simps) simp
    also have "\<dots> = Some (s + real_of_int (sint (vs ! nat i)) + (\<Sum>x\<leftarrow>drop (nat (i + 1)) vs. real_of_int (sint x)),
        fold (\<lambda>v m. incr m v) (drop (nat (i + 1)) vs) (incr m (vs ! nat i)))"
      using True "1.prems" by (intro "1.hyps"[OF True r]) auto
    finally show ?thesis by (simp add: d add.assoc)
  qed
qed

lemma count_loop_eq:
  "0 \<le> i \<Longrightarrow> i \<le> sz \<Longrightarrow> sz = int (length vs) \<Longrightarrow>
   count_loop vs sz i m = Some (fold (\<lambda>v m. incr m v) (drop (nat i) vs) m)"
proof (induction vs sz i m rule: count_loop.induct)
  case (1 vs sz i m)
  show ?case
  proof (cases "i < sz")
    case False
    with "1.prems" show ?thesis by (subst count_loop.simps) simp
  next
    case True
    have r: "rd vs i = Some (vs ! nat i)" using True "1.prems" by (intro rd_Some) auto
    have d: "drop (nat i) vs = vs ! nat i # drop (nat (i + 1)) vs"
      using True "1.prems" by (simp add: Cons_nth_drop_Suc nat_add_distrib)
    have "count_loop vs sz i m = count_loop vs sz (i + 1) (incr m (vs ! nat i))"
      using True r by (subst count_loop.simps) simp
    also have "\<dots> = Some (fold (\<lambda>v m. incr m v) (drop (nat (i + 1)) vs) (incr m (vs ! nat i)))"
      using True "1.prems" by (intro "1.IH"[OF True r]) auto
    finally show ?thesis by (simp add: d)
  qed
qed

lemma mode_loop_bounds:
  "mode_loop m order (mode0, f0) = (mode, f) \<Longrightarrow>
   f0 \<le> f \<and> (\<forall>k\<in>set order. \<forall>c. m k = Some c \<longrightarrow> c \<le> f)"
proof (induction order arbitrary: mode0 f0)
  case Nil
  then show ?case by simp
next
  case (Cons k order)
  show ?case
  proof (cases "m k")
    case None
    with Cons.prems have "mode_loop m order (mode0, f0) = (mode, f)" by simp
    from Cons.IH[OF this] None show ?thesis by simp
  next
    case (Some c)
    show ?thesis
    proof (cases "c > f0")
      case True
      with Some Cons.prems have "mode_loop m order (k, c) = (mode, f)" by simp
      from Cons.IH[OF this] Some True show ?thesis by simp
    next
      case False
      with Some Cons.prems have "mode_loop m order (mode0, f0) = (mode, f)" by simp
      from Cons.IH[OF this] Some False show ?thesis by simp
    qed
  qed
qed

lemma mode_loop_first:
  "mode_loop m order (mode0, f0) = (mode, f) \<Longrightarrow>
   (f = f0 \<and> mode = mode0) \<or> (f0 < f \<and> List.find (\<lambda>k. m k = Some f) order = Some mode)"
proof (induction order arbitrary: mode0 f0)
  case Nil
  then show ?case by simp
next
  case (Cons k order)
  show ?case
  proof (cases "m k")
    case None
    with Cons.prems have "mode_loop m order (mode0, f0) = (mode, f)" by simp
    from Cons.IH[OF this] None show ?thesis by simp
  next
    case (Some c)
    show ?thesis
    proof (cases "c > f0")
      case True
      with Some Cons.prems have "mode_loop m order (k, c) = (mode, f)" by simp
      from Cons.IH[OF this] Some True show ?thesis by auto
    next
      case False
      with Some Cons.prems have "mode_loop m order (mode0, f0) = (mode, f)" by simp
      from Cons.IH[OF this] Some False show ?thesis by auto
    qed
  qed
qed

section \<open>\<^verbatim>\<open>StatisticsAnalyzer\<close>: the report in closed form\<close>

lemma median_of_eq:
  assumes "ws \<noteq> []"
  shows "median_of ws (int (length ws)) =
     Some (if even (length ws)
           then real_of_int (sint (ws ! (length ws div 2 - 1) + ws ! (length ws div 2))) / 2
           else real_of_int (sint (ws ! (length ws div 2))))"
proof -
  let ?n = "int (length ws)"
  have n: "0 < ?n" using assms by simp
  have cm: "c_mod ?n 2 = ?n mod 2" and cd: "c_div ?n 2 = ?n div 2"
    by (simp_all add: c_mod_nonneg c_div_nonneg)
  have hi: "rd ws (?n div 2) = Some (ws ! (length ws div 2))"
  proof -
    have "?n div 2 < ?n" using n by presburger
    then have "rd ws (?n div 2) = Some (ws ! nat (?n div 2))" using n by (intro rd_Some) auto
    moreover have "nat (?n div 2) = length ws div 2" by (simp add: nat_div_distrib)
    ultimately show ?thesis by simp
  qed
  show ?thesis
  proof (cases "even (length ws)")
    case False
    then have "?n mod 2 \<noteq> 0" by presburger
    with False hi show ?thesis by (simp add: median_of_def cm cd)
  next
    case True
    then have m: "?n mod 2 = 0" by presburger
    have two: "2 \<le> ?n" using True n by presburger
    have "0 \<le> ?n div 2 - 1" "?n div 2 - 1 < ?n" using two by presburger+
    then have "rd ws (?n div 2 - 1) = Some (ws ! nat (?n div 2 - 1))" by (intro rd_Some)
    moreover have "nat (?n div 2 - 1) = length ws div 2 - 1" using two by (simp add: nat_diff_distrib nat_div_distrib)
    ultimately have lo: "rd ws (?n div 2 - 1) = Some (ws ! (length ws div 2 - 1))" by simp
    from True m hi lo show ?thesis by (simp add: median_of_def cm cd)
  qed
qed

lemma analyze_eq:
  assumes "ws \<noteq> []"
  shows "StatisticsAnalyzer_analyze (h @ [ws]) \<lparr>a_values = length h, a_size = int (length ws)\<rparr> order =
     (case mode_loop (counts ws) order (hd ws, 1) of (mode, maxFrequency) \<Rightarrow>
      Some (Statistics
        \<lparr>r_min = hd ws, r_max = last ws,
         r_mean = (\<Sum>x\<leftarrow>ws. real_of_int (sint x)) / real (length ws),
         r_median = (if even (length ws)
           then real_of_int (sint (ws ! (length ws div 2 - 1) + ws ! (length ws div 2))) / 2
           else real_of_int (sint (ws ! (length ws div 2)))),
         r_mode = mode, r_maxFrequency = maxFrequency\<rparr>))"
proof -
  let ?n = "int (length ws)"
  have n: "0 < ?n" using assms by simp
  have r0: "rd ws 0 = Some (hd ws)" using assms by (simp add: rd_def hd_conv_nth)
  have "rd ws (?n - 1) = Some (ws ! nat (?n - 1))" using n by (intro rd_Some) auto
  moreover have "nat (?n - 1) = length ws - 1" by (simp add: nat_diff_distrib)
  ultimately have r1: "rd ws (?n - 1) = Some (last ws)" using assms by (simp add: last_conv_nth)
  have fl: "frequency_loop ws ?n 0 (0, Map.empty) =
     Some ((\<Sum>x\<leftarrow>ws. real_of_int (sint x)), counts ws)"
    using frequency_loop_eq[of 0 ?n ws 0 Map.empty] by (simp add: fold_incr_empty)
  show ?thesis
    using n by (simp add: StatisticsAnalyzer_analyze_def lookup_new r0 r1 fl median_of_eq[OF assms])
qed

lemma statistics_report_eq:
  assumes "lookup h p = Some vs" "vs \<noteq> []"
  shows "statistics_report h p (int (length vs)) order =
     (case mode_loop (counts vs) order (hd (sort_key sint vs), 1) of (mode, maxFrequency) \<Rightarrow>
      Some (Statistics
        \<lparr>r_min = hd (sort_key sint vs), r_max = last (sort_key sint vs),
         r_mean = (\<Sum>x\<leftarrow>vs. real_of_int (sint x)) / real (length vs),
         r_median = (if even (length vs)
           then real_of_int (sint (sort_key sint vs ! (length vs div 2 - 1)
                                   + sort_key sint vs ! (length vs div 2))) / 2
           else real_of_int (sint (sort_key sint vs ! (length vs div 2)))),
         r_mode = mode, r_maxFrequency = maxFrequency\<rparr>))"
proof -
  let ?ws = "sort_key sint vs"
  have ne: "?ws \<noteq> []" using assms(2) by (metis length_sort list.size(3) length_0_conv)
  have ms: "mset ?ws = mset vs" by simp
  have c: "StatisticsAnalyzer_ctor h p (int (length vs))
     = Some (h @ [?ws], \<lparr>a_values = length h, a_size = int (length ?ws)\<rparr>)"
    using sorting_ctor_Some(1)[OF assms(1), of "int (length vs)"] by simp
  have sm: "(\<Sum>x\<leftarrow>?ws. real_of_int (sint x)) = (\<Sum>x\<leftarrow>vs. real_of_int (sint x))"
  proof -
    have "sum_mset (mset (map (\<lambda>x. real_of_int (sint x)) ?ws))
        = sum_mset (mset (map (\<lambda>x. real_of_int (sint x)) vs))"
      by (simp only: mset_map ms)
    then show ?thesis by (simp only: sum_mset_sum_list)
  qed
  have "statistics_report h p (int (length vs)) order =
      StatisticsAnalyzer_analyze (h @ [?ws]) \<lparr>a_values = length h, a_size = int (length ?ws)\<rparr> order"
    by (simp only: statistics_report_def c option.case prod.case)
  also note analyze_eq[OF ne]
  finally show ?thesis
    by (simp only: counts_mset[OF ms] sm length_sort)
qed

section \<open>\<^verbatim>\<open>StatisticsAnalyzer\<close>: the mode\<close>

lemma sort_key_sint_props:
  "vs \<noteq> [] \<Longrightarrow> hd (sort_key sint vs) \<in> set vs \<and> last (sort_key sint vs) \<in> set vs \<and>
     (\<forall>x\<in>set vs. sint (hd (sort_key sint vs)) \<le> sint x \<and> sint x \<le> sint (last (sort_key sint vs)))"
proof -
  assume ne: "vs \<noteq> []"
  let ?ws = "sort_key sint vs"
  have wne: "?ws \<noteq> []" using ne by (metis length_sort length_0_conv)
  have st: "set ?ws = set vs" by simp
  have so: "sorted (map sint ?ws)" by simp
  have mem: "hd ?ws \<in> set vs" "last ?ws \<in> set vs"
    using wne st by (metis hd_in_set, metis last_in_set)
  have "sint (hd ?ws) \<le> sint x \<and> sint x \<le> sint (last ?ws)" if "x \<in> set vs" for x
  proof -
    from that st obtain j where j: "j < length ?ws" "?ws ! j = x" by (metis in_set_conv_nth)
    have l: "0 < length ?ws" "length ?ws - 1 < length ?ws" using j(1) by auto
    have "map sint ?ws ! 0 \<le> map sint ?ws ! j"
      using so j(1) by (intro sorted_nth_mono) auto
    then have lo: "sint (?ws ! 0) \<le> sint (?ws ! j)"
      by (simp only: nth_map[OF l(1)] nth_map[OF j(1)])
    have "map sint ?ws ! j \<le> map sint ?ws ! (length ?ws - 1)"
      using so j(1) by (intro sorted_nth_mono) auto
    then have hi: "sint (?ws ! j) \<le> sint (?ws ! (length ?ws - 1))"
      by (simp only: nth_map[OF l(2)] nth_map[OF j(1)])
    show ?thesis
      using lo hi by (simp only: hd_conv_nth[OF wne] last_conv_nth[OF wne] j(2))
  qed
  with mem show ?thesis by blast
qed

lemma counts_Some_iff: "0 < f \<Longrightarrow> (counts vs k = Some f) = (int (count_list vs k) = f)"
  by (auto simp: counts_def count_list_0_iff)

lemma mode_loop_counts:
  assumes ml: "mode_loop (counts vs) order (m0, 1) = (mode, f)"
    and m0: "m0 \<in> set vs" and sub: "set vs \<subseteq> set order"
  shows "mode \<in> set vs \<and> f = int (count_list vs mode) \<and> (\<forall>x. int (count_list vs x) \<le> f) \<and>
    (f = 1 \<longrightarrow> mode = m0) \<and>
    (1 < f \<longrightarrow> List.find (\<lambda>k. int (count_list vs k) = f) order = Some mode)"
proof -
  from mode_loop_bounds[OF ml]
  have f1: "1 \<le> f" and ub: "\<And>k c. k \<in> set order \<Longrightarrow> counts vs k = Some c \<Longrightarrow> c \<le> f"
    by auto
  have mx: "int (count_list vs x) \<le> f" for x
  proof (cases "x \<in> set vs")
    case True
    then show ?thesis using ub[of x "int (count_list vs x)"] sub by (auto simp: counts_def)
  next
    case False
    then show ?thesis using f1 by (simp add: count_list_0_iff)
  qed
  have pred: "(\<lambda>k. counts vs k = Some f) = (\<lambda>k. int (count_list vs k) = f)"
    using f1 by (intro ext counts_Some_iff) simp
  from mode_loop_first[OF ml]
  consider (same) "f = 1" "mode = m0"
    | (upd) "1 < f" "List.find (\<lambda>k. int (count_list vs k) = f) order = Some mode"
    by (auto simp: pred)
  then show ?thesis
  proof cases
    case same
    have "count_list vs m0 \<noteq> 0" using m0 by (simp add: count_list_0_iff)
    then have "0 < count_list vs m0" by simp
    with mx[of m0] same have "f = int (count_list vs mode)" by simp
    with same m0 mx show ?thesis by simp
  next
    case upd
    then have c: "int (count_list vs mode) = f" by (auto simp: find_Some_iff)
    with upd(1) have "mode \<in> set vs" by (metis count_list_0_iff int_ops(1) not_less_iff_gr_or_eq less_trans zero_less_one)
    with c upd mx show ?thesis by simp
  qed
qed

lemma sint_add_in_range:
  fixes x y :: cint
  assumes "- (2 ^ 31) \<le> sint x + sint y" "sint x + sint y < 2 ^ 31"
  shows "sint (x + y) = sint x + sint y"
  using assms by (simp add: sint_word_add signed_take_bit_int_eq_self)

lemma distinct_count_list: "distinct vs \<Longrightarrow> count_list vs x \<le> 1"
  by (induction vs) auto

text \<open>
  C3, as amended: for a non-empty sequence and a traversal \<open>order\<close> of the frequency map
  (each value of the sequence once), the analyzer returns a report whose mode is a
  value of the sequence of maximum frequency, with that frequency as the count. When
  the maximum frequency exceeds 1, the mode is the first value of maximum frequency in
  the traversal order of the map; when it is 1, the mode is the first element of the
  sorted copy.
\<close>

theorem mode_first_in_traversal:
  assumes "lookup h p = Some vs" "vs \<noteq> []" "distinct order" "set order = set vs"
  shows "\<exists>r. statistics_report h p (int (length vs)) order = Some (Statistics r) \<and>
      r_mode r \<in> set vs \<and> r_maxFrequency r = int (count_list vs (r_mode r)) \<and>
      (\<forall>x. count_list vs x \<le> count_list vs (r_mode r)) \<and>
      (1 < r_maxFrequency r \<longrightarrow>
         List.find (\<lambda>k. int (count_list vs k) = r_maxFrequency r) order = Some (r_mode r)) \<and>
      (r_maxFrequency r = 1 \<longrightarrow> r_mode r = hd (sort_key sint vs))"
proof -
  obtain mode f where ml: "mode_loop (counts vs) order (hd (sort_key sint vs), 1) = (mode, f)"
    by (cases "mode_loop (counts vs) order (hd (sort_key sint vs), 1)")
  have m0: "hd (sort_key sint vs) \<in> set vs" using sort_key_sint_props[OF assms(2)] by blast
  have sub: "set vs \<subseteq> set order" using assms(4) by simp
  note props = mode_loop_counts[OF ml m0 sub]
  from props have p1: "mode \<in> set vs" and p2: "f = int (count_list vs mode)"
    and p3: "\<And>x. int (count_list vs x) \<le> f"
    and p4: "1 < f \<longrightarrow> List.find (\<lambda>k. int (count_list vs k) = f) order = Some mode"
    and p5: "f = 1 \<longrightarrow> mode = hd (sort_key sint vs)"
    by blast+
  have le: "\<forall>x. count_list vs x \<le> count_list vs mode"
  proof
    fix x
    from p3[of x] p2 show "count_list vs x \<le> count_list vs mode" by simp
  qed
  define r where "r = \<lparr>r_min = hd (sort_key sint vs), r_max = last (sort_key sint vs),
         r_mean = (\<Sum>x\<leftarrow>vs. real_of_int (sint x)) / real (length vs),
         r_median = (if even (length vs)
           then real_of_int (sint (sort_key sint vs ! (length vs div 2 - 1)
                                   + sort_key sint vs ! (length vs div 2))) / 2
           else real_of_int (sint (sort_key sint vs ! (length vs div 2)))),
         r_mode = mode, r_maxFrequency = f\<rparr>"
  have eq: "statistics_report h p (int (length vs)) order = Some (Statistics r)"
    unfolding r_def by (simp only: statistics_report_eq[OF assms(1,2)] ml prod.case)
  have sel: "r_mode r = mode" "r_maxFrequency r = f" by (simp_all add: r_def)
  show ?thesis
  proof (intro exI[of _ r] conjI)
    show "statistics_report h p (int (length vs)) order = Some (Statistics r)" by (rule eq)
    show "r_mode r \<in> set vs" unfolding sel by (rule p1)
    show "r_maxFrequency r = int (count_list vs (r_mode r))" unfolding sel by (rule p2)
    show "\<forall>x. count_list vs x \<le> count_list vs (r_mode r)" unfolding sel by (rule le)
    show "1 < r_maxFrequency r \<longrightarrow>
         List.find (\<lambda>k. int (count_list vs k) = r_maxFrequency r) order = Some (r_mode r)"
      unfolding sel by (rule p4)
    show "r_maxFrequency r = 1 \<longrightarrow> r_mode r = hd (sort_key sint vs)"
      unfolding sel by (rule p5)
  qed
qed

theorem mode_first_in_traversal_witness:
  "\<exists>r. statistics_report [[1, 1, 2, 2]] 0 4 [2, 1] = Some (Statistics r) \<and>
      r_mode r = 2 \<and> r_maxFrequency r = 2"
proof -
  have l: "lookup [[1, 1, 2, 2]] 0 = Some [1, 1, 2, 2]" by (simp add: lookup_def)
  have d: "distinct [2, 1 :: cint]" "set [2, 1 :: cint] = set [1, 1, 2, 2]" by auto
  from mode_first_in_traversal[OF l _ d]
  obtain r where r: "statistics_report [[1, 1, 2, 2]] 0 4 [2, 1] = Some (Statistics r)"
    "r_mode r \<in> set [1, 1, 2, 2]" "r_maxFrequency r = int (count_list [1, 1, 2, 2] (r_mode r))"
    "1 < r_maxFrequency r \<longrightarrow>
       List.find (\<lambda>k. int (count_list [1, 1, 2, 2] k) = r_maxFrequency r) [2, 1] = Some (r_mode r)"
    by auto
  from r(2,3) have f: "r_maxFrequency r = 2" by auto
  with r(4) have "r_mode r = 2" by simp
  with r(1) f show ?thesis by blast
qed

text \<open>
  C3 as stated fails: on \<open>[1, 1, 2, 2]\<close>, with the map traversed in the order 2, 1, the
  values 1 and 2 are tied at the frequency 2 and the reported mode is 2, not the
  earlier-sorted 1.
\<close>

theorem mode_tie_counterexample:
  "statistics_report [[1, 1, 2, 2]] 0 4 [2, 1] =
     Some (Statistics \<lparr>r_min = 1, r_max = 2, r_mean = 3 / 2, r_median = 3 / 2, r_mode = 2,
                       r_maxFrequency = 2\<rparr>) \<and>
   distinct [2, 1 :: cint] \<and> set [2, 1 :: cint] = set [1, 1, 2, 2] \<and>
   count_list [1, 1, 2, 2] (1 :: cint) = 2 \<and> count_list [1, 1, 2, 2] (2 :: cint) = 2 \<and>
   sint (1 :: cint) < sint (2 :: cint)"
proof -
  have report: "statistics_report [[1, 1, 2, 2]] 0 4 [2, 1] =
     Some (Statistics \<lparr>r_min = 1, r_max = 2, r_mean = 3 / 2, r_median = 3 / 2, r_mode = 2,
                       r_maxFrequency = 2\<rparr>)"
    by code_simp
  have tie: "distinct [2, 1 :: cint] \<and> set [2, 1 :: cint] = set [1, 1, 2, 2] \<and>
     count_list [1, 1, 2, 2] (1 :: cint) = 2 \<and> count_list [1, 1, 2, 2] (2 :: cint) = 2 \<and>
     sint (1 :: cint) < sint (2 :: cint)"
    by auto
  show ?thesis by (rule conjI[OF report tie])
qed

text \<open>
  C10: for a non-empty sequence in which no value occurs twice, whatever the traversal
  order, the reported mode is the minimum of the sequence and the reported frequency
  is 1.
\<close>

theorem mode_of_distinct_values:
  assumes "lookup h p = Some vs" "vs \<noteq> []" "distinct vs"
  shows "\<exists>r. statistics_report h p (int (length vs)) order = Some (Statistics r) \<and>
      r_mode r \<in> set vs \<and> (\<forall>x\<in>set vs. sint (r_mode r) \<le> sint x) \<and> r_maxFrequency r = 1"
proof -
  obtain mode f where ml: "mode_loop (counts vs) order (hd (sort_key sint vs), 1) = (mode, f)"
    by (cases "mode_loop (counts vs) order (hd (sort_key sint vs), 1)")
  have "f = 1 \<and> mode = hd (sort_key sint vs)"
  proof (rule ccontr)
    assume "\<not> (f = 1 \<and> mode = hd (sort_key sint vs))"
    with mode_loop_first[OF ml]
    have f: "1 < f" and fd: "List.find (\<lambda>k. counts vs k = Some f) order = Some mode" by auto
    from fd have "counts vs mode = Some f" by (auto simp: find_Some_iff)
    then have "int (count_list vs mode) = f" by (auto simp: counts_def split: if_splits)
    with f distinct_count_list[OF assms(3), of mode] show False by simp
  qed
  then show ?thesis
    using sort_key_sint_props[OF assms(2)]
    by (simp add: statistics_report_eq[OF assms(1,2)] ml)
qed

theorem mode_of_distinct_values_witness:
  "\<exists>r. statistics_report [[7, -3, 5]] 0 3 [5, 7, -3] = Some (Statistics r) \<and>
      r_mode r = -3 \<and> r_maxFrequency r = 1"
proof -
  have l: "lookup [[7, -3, 5]] 0 = Some [7, -3, 5]" by (simp add: lookup_def)
  have d: "distinct [7, -3, 5 :: cint]" by simp
  from mode_of_distinct_values[OF l _ d, of "[5, 7, -3]"]
  obtain r where r: "statistics_report [[7, -3, 5]] 0 3 [5, 7, -3] = Some (Statistics r)"
    "r_mode r \<in> set [7, -3, 5]" "\<forall>x\<in>set [7, -3, 5 :: cint]. sint (r_mode r) \<le> sint x"
    "r_maxFrequency r = 1"
    by auto
  from r(2,3) have "r_mode r = -3" by auto
  with r(1,4) show ?thesis by blast
qed

section \<open>\<^verbatim>\<open>StatisticsAnalyzer\<close>: minimum, maximum, mean and median\<close>

text \<open>
  C4, away from overflow: for a non-empty sequence, provided that for an even length
  the sum of the two middle elements of the sorted copy fits in 32 bits, the analyzer
  returns a report with the first element of the sorted copy as the minimum, a lower
  bound of the sequence; the last element as the maximum, an upper bound; the sum of
  the values divided by their number as the mean; and as the median the middle element
  of the sorted copy for an odd length, the average of the two middle elements for an
  even length. On \<open>[1, 2, 2, 3, 4]\<close> the report is min 1, max 4, mean 12/5, median 2,
  mode 2 with the count 2.
\<close>

theorem statistics_measures:
  assumes "lookup h p = Some vs" "vs \<noteq> []"
    and "even (length vs) \<longrightarrow>
      - (2 ^ 31) \<le> sint (sort_key sint vs ! (length vs div 2 - 1)) + sint (sort_key sint vs ! (length vs div 2)) \<and>
      sint (sort_key sint vs ! (length vs div 2 - 1)) + sint (sort_key sint vs ! (length vs div 2)) < 2 ^ 31"
  shows "\<exists>r. statistics_report h p (int (length vs)) order = Some (Statistics r) \<and>
      r_min r = hd (sort_key sint vs) \<and> r_min r \<in> set vs \<and> (\<forall>x\<in>set vs. sint (r_min r) \<le> sint x) \<and>
      r_max r = last (sort_key sint vs) \<and> r_max r \<in> set vs \<and> (\<forall>x\<in>set vs. sint x \<le> sint (r_max r)) \<and>
      r_mean r = (\<Sum>x\<leftarrow>vs. real_of_int (sint x)) / real (length vs) \<and>
      r_median r =
        (if even (length vs)
         then (real_of_int (sint (sort_key sint vs ! (length vs div 2 - 1)))
               + real_of_int (sint (sort_key sint vs ! (length vs div 2)))) / 2
         else real_of_int (sint (sort_key sint vs ! (length vs div 2)))) \<and>
      (vs = [1, 2, 2, 3, 4] \<and> set order = set vs \<longrightarrow>
         r = \<lparr>r_min = 1, r_max = 4, r_mean = 12 / 5, r_median = 2, r_mode = 2, r_maxFrequency = 2\<rparr>)"
proof -
  let ?ws = "sort_key sint vs"
  let ?n = "length vs"
  obtain mode f where ml: "mode_loop (counts vs) order (hd ?ws, 1) = (mode, f)"
    by (cases "mode_loop (counts vs) order (hd ?ws, 1)")
  have med: "real_of_int (sint (?ws ! (?n div 2 - 1) + ?ws ! (?n div 2))) / 2
      = (real_of_int (sint (?ws ! (?n div 2 - 1))) + real_of_int (sint (?ws ! (?n div 2)))) / 2"
    if "even ?n"
    using that assms(3) by (simp only: sint_add_in_range of_int_add)
  define r where "r = \<lparr>r_min = hd ?ws, r_max = last ?ws,
         r_mean = (\<Sum>x\<leftarrow>vs. real_of_int (sint x)) / real ?n,
         r_median = (if even ?n
           then (real_of_int (sint (?ws ! (?n div 2 - 1))) + real_of_int (sint (?ws ! (?n div 2)))) / 2
           else real_of_int (sint (?ws ! (?n div 2)))),
         r_mode = mode, r_maxFrequency = f\<rparr>"
  have eq: "statistics_report h p (int ?n) order = Some (Statistics r)"
  proof (cases "even ?n")
    case True
    show ?thesis unfolding r_def
      by (simp only: statistics_report_eq[OF assms(1,2)] ml prod.case True if_True med[OF True])
  next
    case False
    show ?thesis unfolding r_def
      by (simp only: statistics_report_eq[OF assms(1,2)] ml prod.case False if_False)
  qed
  have sel: "r_min r = hd ?ws" "r_max r = last ?ws"
    "r_mean r = (\<Sum>x\<leftarrow>vs. real_of_int (sint x)) / real ?n"
    "r_median r = (if even ?n
           then (real_of_int (sint (?ws ! (?n div 2 - 1))) + real_of_int (sint (?ws ! (?n div 2)))) / 2
           else real_of_int (sint (?ws ! (?n div 2))))"
    "r_mode r = mode" "r_maxFrequency r = f"
    by (simp_all only: r_def statistics.simps)
  note sp = sort_key_sint_props[OF assms(2)]
  have ex: "r = \<lparr>r_min = 1, r_max = 4, r_mean = 12 / 5, r_median = 2, r_mode = 2, r_maxFrequency = 2\<rparr>"
    if v: "vs = [1, 2, 2, 3, 4]" and o: "set order = set vs"
  proof -
    have ws: "?ws = [1, 2, 2, 3, 4]" unfolding v by simp
    have m0: "hd ?ws \<in> set vs" using sp by blast
    have sub: "set vs \<subseteq> set order" using o by simp
    from mode_loop_counts[OF ml m0 sub]
    have p1: "mode \<in> set vs" and p2: "f = int (count_list vs mode)"
      and p3: "\<And>x. int (count_list vs x) \<le> f" by blast+
    from p3[of 2] have "2 \<le> f" unfolding v by simp
    with p1 p2 have mf: "mode = 2 \<and> f = 2" unfolding v by auto
    have "r_min r = 1" "r_max r = 4" "r_mean r = 12 / 5" "r_median r = 2"
      unfolding sel ws unfolding v by simp_all
    with mf sel(5,6) show ?thesis by (cases r) simp
  qed
  show ?thesis
  proof (intro exI[of _ r] conjI)
    show "statistics_report h p (int ?n) order = Some (Statistics r)" by (rule eq)
    show "r_min r = hd ?ws" by (rule sel)
    show "r_min r \<in> set vs" unfolding sel using sp by blast
    show "\<forall>x\<in>set vs. sint (r_min r) \<le> sint x" unfolding sel using sp by blast
    show "r_max r = last ?ws" by (rule sel)
    show "r_max r \<in> set vs" unfolding sel using sp by blast
    show "\<forall>x\<in>set vs. sint x \<le> sint (r_max r)" unfolding sel using sp by blast
    show "r_mean r = (\<Sum>x\<leftarrow>vs. real_of_int (sint x)) / real ?n" by (rule sel)
    show "r_median r = (if even ?n
           then (real_of_int (sint (?ws ! (?n div 2 - 1))) + real_of_int (sint (?ws ! (?n div 2)))) / 2
           else real_of_int (sint (?ws ! (?n div 2))))" by (rule sel)
    show "vs = [1, 2, 2, 3, 4] \<and> set order = set vs \<longrightarrow>
         r = \<lparr>r_min = 1, r_max = 4, r_mean = 12 / 5, r_median = 2, r_mode = 2, r_maxFrequency = 2\<rparr>"
      using ex by blast
  qed
qed

theorem statistics_measures_witness:
  "statistics_report [[1, 2, 2, 3, 4]] 0 5 [4, 3, 2, 1] =
     Some (Statistics \<lparr>r_min = 1, r_max = 4, r_mean = 12 / 5, r_median = 2, r_mode = 2,
                       r_maxFrequency = 2\<rparr>)"
proof -
  have l: "lookup [[1, 2, 2, 3, 4]] 0 = Some [1, 2, 2, 3, 4]" by (simp add: lookup_def)
  have o: "set [4, 3, 2, 1 :: cint] = set [1, 2, 2, 3, 4]" by auto
  from statistics_measures[OF l, of "[4, 3, 2, 1]"] o
  show ?thesis by auto
qed

text \<open>
  C4 at an input where the sum of the two middle elements overflows: on
  \<open>[2147483647, 2147483647]\<close> the reported median is \<open>-1\<close>, where the average of the two
  middle elements is 2147483647. The sum for the mean, taken in \<^verbatim>\<open>double\<close>, is not
  affected.
\<close>

theorem statistics_median_overflow:
  "statistics_report [[2147483647, 2147483647]] 0 2 [2147483647] =
     Some (Statistics \<lparr>r_min = 2147483647, r_max = 2147483647, r_mean = 2147483647,
                       r_median = - 1, r_mode = 2147483647, r_maxFrequency = 2\<rparr>) \<and>
   (real_of_int (sint (2147483647 :: cint)) + real_of_int (sint (2147483647 :: cint))) / 2 = 2147483647"
proof -
  have report: "statistics_report [[2147483647, 2147483647]] 0 2 [2147483647] =
     Some (Statistics \<lparr>r_min = 2147483647, r_max = 2147483647, r_mean = 2147483647,
                       r_median = - 1, r_mode = 2147483647, r_maxFrequency = 2\<rparr>)"
    by code_simp
  have avg: "(real_of_int (sint (2147483647 :: cint)) + real_of_int (sint (2147483647 :: cint))) / 2
      = 2147483647"
    by simp
  show ?thesis by (rule conjI[OF report avg])
qed

section \<open>\<^verbatim>\<open>DuplicateAnalyzer\<close>\<close>

lemma duplicate_loop_eq:
  "duplicate_loop m order d =
     d + (\<Sum>k\<leftarrow>order. case m k of None \<Rightarrow> 0 | Some c \<Rightarrow> if 1 < c then c - 1 else 0)"
  by (induction order arbitrary: d) (auto split: option.splits)

lemma duplicate_analyze_eq:
  assumes "distinct order" "set order = set vs"
  shows "DuplicateAnalyzer_analyze (h @ [vs]) \<lparr>a_values = length h, a_size = int (length vs)\<rparr> order
     = Some (\<Sum>x\<in>set vs. if 1 < count_list vs x then int (count_list vs x) - 1 else 0)"
proof -
  have cl: "count_loop vs (int (length vs)) 0 Map.empty = Some (counts vs)"
    using count_loop_eq[of 0 "int (length vs)" vs Map.empty] by (simp add: fold_incr_empty)
  have "(\<Sum>k\<leftarrow>order. case counts vs k of None \<Rightarrow> 0 | Some c \<Rightarrow> if 1 < c then c - 1 else 0)
      = (\<Sum>k\<in>set order. case counts vs k of None \<Rightarrow> 0 | Some c \<Rightarrow> if 1 < c then c - 1 else 0)"
    using assms(1) by (rule sum_list_distinct_conv_sum_set)
  also have "\<dots> = (\<Sum>x\<in>set vs. if 1 < count_list vs x then int (count_list vs x) - 1 else 0)"
    unfolding assms(2) by (rule sum.cong) (auto simp: counts_def)
  finally show ?thesis
    by (simp add: DuplicateAnalyzer_analyze_def lookup_new cl duplicate_loop_eq)
qed

lemma duplicate_report_eq:
  assumes "lookup h p = Some vs" "distinct order" "set order = set vs"
  shows "duplicate_report h p (int (length vs)) order
     = Some (\<Sum>x\<in>set vs. if 1 < count_list vs x then int (count_list vs x) - 1 else 0)"
proof -
  have c: "DuplicateAnalyzer_ctor h p (int (length vs))
     = Some (h @ [vs], \<lparr>a_values = length h, a_size = int (length vs)\<rparr>)"
    using cloneValues_Some[OF assms(1), of "int (length vs)"] by (simp add: DuplicateAnalyzer_ctor_def)
  show ?thesis
    by (simp only: duplicate_report_def c option.case prod.case duplicate_analyze_eq[OF assms(2,3)])
qed

text \<open>
  C5: for a sequence and a traversal \<open>order\<close> of the count map (each value of the
  sequence once), the analyzer reports the sum, over the distinct values that occur
  \<open>k > 1\<close> times, of \<open>k - 1\<close>. On \<open>[5, 5, 5, 7, 9, 9]\<close> that is 3, on the empty
  sequence 0.
\<close>

theorem duplicate_excess_count:
  assumes "lookup h p = Some vs" "distinct order" "set order = set vs"
  shows "duplicate_report h p (int (length vs)) order
      = Some (\<Sum>x\<in>set vs. if 1 < count_list vs x then int (count_list vs x) - 1 else 0) \<and>
    (vs = [5, 5, 5, 7, 9, 9] \<longrightarrow> duplicate_report h p (int (length vs)) order = Some 3) \<and>
    (vs = [] \<longrightarrow> duplicate_report h p (int (length vs)) order = Some 0)"
proof -
  note eq = duplicate_report_eq[OF assms]
  have "(\<Sum>x\<in>set [5, 5, 5, 7, 9, 9 :: cint].
      if 1 < count_list [5, 5, 5, 7, 9, 9] x then int (count_list [5, 5, 5, 7, 9, 9] x) - 1 else 0) = 3"
    by simp
  then have a: "vs = [5, 5, 5, 7, 9, 9] \<longrightarrow> duplicate_report h p (int (length vs)) order = Some 3"
    using eq by auto
  have b: "vs = [] \<longrightarrow> duplicate_report h p (int (length vs)) order = Some 0"
    using eq by auto
  from eq a b show ?thesis by blast
qed

theorem duplicate_excess_count_witness:
  "duplicate_report [[5, 5, 5, 7, 9, 9]] 0 6 [9, 5, 7] = Some 3"
proof -
  have l: "lookup [[5, 5, 5, 7, 9, 9]] 0 = Some [5, 5, 5, 7, 9, 9]" by (simp add: lookup_def)
  have d: "distinct [9, 5, 7 :: cint]" "set [9, 5, 7 :: cint] = set [5, 5, 5, 7, 9, 9]" by auto
  from duplicate_excess_count[OF l d] show ?thesis by simp
qed

section \<open>\<^verbatim>\<open>MissingAnalyzer\<close>\<close>

lemma value_loop_eq:
  "0 \<le> i \<Longrightarrow> i \<le> sz \<Longrightarrow> sz = int (length vs) \<Longrightarrow>
   \<exists>m'. value_loop vs sz i m = Some m' \<and> (\<forall>k. (m' k = None) = (m k = None \<and> k \<notin> set (drop (nat i) vs)))"
proof (induction vs sz i m rule: value_loop.induct)
  case (1 vs sz i m)
  show ?case
  proof (cases "i < sz")
    case False
    with "1.prems" show ?thesis by (subst value_loop.simps) simp
  next
    case True
    have r: "rd vs i = Some (vs ! nat i)" using True "1.prems" by (intro rd_Some) auto
    have d: "drop (nat i) vs = vs ! nat i # drop (nat (i + 1)) vs"
      using True "1.prems" by (simp add: Cons_nth_drop_Suc nat_add_distrib)
    have step: "value_loop vs sz i m = value_loop vs sz (i + 1) (m(vs ! nat i \<mapsto> True))"
      using True r by (subst value_loop.simps) simp
    have "\<exists>m'. value_loop vs sz (i + 1) (m(vs ! nat i \<mapsto> True)) = Some m' \<and>
        (\<forall>k. (m' k = None) =
          ((m(vs ! nat i \<mapsto> True)) k = None \<and> k \<notin> set (drop (nat (i + 1)) vs)))"
      using True "1.prems" by (intro "1.IH"[OF True r]) auto
    then obtain m' where m': "value_loop vs sz (i + 1) (m(vs ! nat i \<mapsto> True)) = Some m'"
      "\<forall>k. (m' k = None) = ((m(vs ! nat i \<mapsto> True)) k = None \<and> k \<notin> set (drop (nat (i + 1)) vs))"
      by blast
    have "\<forall>k. (m' k = None) = (m k = None \<and> k \<notin> set (drop (nat i) vs))"
      using m'(2) unfolding d by auto
    with step m'(1) show ?thesis by simp
  qed
qed

lemma missing_loop_eq:
  "0 \<le> i \<Longrightarrow> i \<le> 1000 \<Longrightarrow>
   missing_loop m i c = c + int (card {j. i \<le> j \<and> j < 1000 \<and> m (word_of_int j) = None})"
proof (induction m i c rule: missing_loop.induct)
  case (1 m i c)
  show ?case
  proof (cases "i < 1000")
    case False
    then have e: "{j. i \<le> j \<and> j < 1000 \<and> m (word_of_int j) = None} = {}" by auto
    show ?thesis using False by (subst missing_loop.simps) (simp add: e)
  next
    case True
    let ?S = "{j. i + 1 \<le> j \<and> j < 1000 \<and> m (word_of_int j) = None}"
    have fin: "finite ?S" by (rule finite_subset[of _ "{0..1000}"]) (use "1.prems" in auto)
    have split: "{j. i \<le> j \<and> j < 1000 \<and> m (word_of_int j) = None}
        = (if m (word_of_int i) = None then insert i ?S else ?S)"
      using True by (auto simp: order_le_less)
    have ni: "i \<notin> ?S" by simp
    have "missing_loop m i c =
        missing_loop m (i + 1) (if m (word_of_int i) = None then c + 1 else c)"
      using True by (subst missing_loop.simps) simp
    also have "\<dots> = (if m (word_of_int i) = None then c + 1 else c) + int (card ?S)"
      using True "1.prems" by (intro "1.IH"[OF True]) auto
    also have "\<dots> = c + int (card {j. i \<le> j \<and> j < 1000 \<and> m (word_of_int j) = None})"
      unfolding split using fin ni by simp
    finally show ?thesis .
  qed
qed

lemma word_of_int_mem_iff:
  fixes vs :: "cint list"
  assumes "0 \<le> j" "j < 1000"
  shows "(word_of_int j \<in> set vs) = (j \<in> sint ` set vs)"
proof
  assume "word_of_int j \<in> set vs"
  moreover have "sint (word_of_int j :: cint) = j"
    using assms by (simp add: sint_sbintrunc' signed_take_bit_int_eq_self)
  ultimately show "j \<in> sint ` set vs" by force
next
  assume "j \<in> sint ` set vs"
  then obtain v where "v \<in> set vs" "j = sint v" by blast
  then show "word_of_int j \<in> set vs" by simp
qed

lemma missing_report_eq:
  assumes "lookup h p = Some vs"
  shows "missing_report h p (int (length vs)) = Some (int (card {j. 0 \<le> j \<and> j < 1000 \<and> j \<notin> sint ` set vs}))"
proof -
  have c: "MissingAnalyzer_ctor h p (int (length vs))
     = Some (h @ [vs], \<lparr>a_values = length h, a_size = int (length vs)\<rparr>)"
    using cloneValues_Some[OF assms(1), of "int (length vs)"] by (simp add: MissingAnalyzer_ctor_def)
  obtain m where m: "value_loop vs (int (length vs)) 0 Map.empty = Some m"
    "\<forall>k. (m k = None) = (k \<notin> set vs)"
    using value_loop_eq[of 0 "int (length vs)" vs Map.empty] by auto
  have "{j. 0 \<le> j \<and> j < 1000 \<and> m (word_of_int j) = None} = {j. 0 \<le> j \<and> j < 1000 \<and> j \<notin> sint ` set vs}"
    using m(2) word_of_int_mem_iff[of _ vs] by auto
  then have "missing_loop m 0 0 = int (card {j. 0 \<le> j \<and> j < 1000 \<and> j \<notin> sint ` set vs})"
    using missing_loop_eq[of 0 m 0] by simp
  then show ?thesis
    by (simp add: missing_report_def c MissingAnalyzer_analyze_def lookup_new m(1))
qed

text \<open>
  C6: the analyzer reports the number of integers from 0 to 999 that are not values of
  the sequence, whatever other values the sequence has. On the empty sequence that is
  1000.
\<close>

theorem missing_count_fixed_domain:
  assumes "lookup h p = Some vs"
  shows "missing_report h p (int (length vs))
      = Some (int (card {j. 0 \<le> j \<and> j < 1000 \<and> j \<notin> sint ` set vs})) \<and>
    (vs = [] \<longrightarrow> missing_report h p (int (length vs)) = Some 1000)"
proof -
  note eq = missing_report_eq[OF assms]
  have "{j :: int. 0 \<le> j \<and> j < 1000} = {0..<1000}" by auto
  then have "card {j :: int. 0 \<le> j \<and> j < 1000} = 1000" by simp
  then have "vs = [] \<longrightarrow> missing_report h p (int (length vs)) = Some 1000"
    using eq by auto
  with eq show ?thesis by blast
qed

theorem missing_count_fixed_domain_witness:
  "missing_report [[]] 0 0 = Some 1000 \<and> missing_report [[5, -1, 2000]] 0 3 = Some 999"
proof -
  have l: "lookup [[]] 0 = Some []" "lookup [[5, -1, 2000]] 0 = Some [5, -1, 2000]"
    by (simp_all add: lookup_def)
  have "{j :: int. 0 \<le> j \<and> j < 1000 \<and> j \<notin> sint ` set [5, -1, 2000 :: cint]} = {0..<1000} - {5}"
    by auto
  then have c: "card {j :: int. 0 \<le> j \<and> j < 1000 \<and> j \<notin> sint ` set [5, -1, 2000 :: cint]} = 999"
    by simp
  have a: "missing_report [[]] 0 0 = Some 1000"
    using conjunct2[OF missing_count_fixed_domain[OF l(1)]] by simp
  have b: "missing_report [[5, -1, 2000]] 0 3 = Some 999"
    using conjunct1[OF missing_count_fixed_domain[OF l(2)]] by (simp only: c) simp
  show ?thesis by (rule conjI[OF a b])
qed

section \<open>\<^verbatim>\<open>SearchAnalyzer\<close>\<close>

lemma length_filter_upt_Suc:
  "length (filter P [0..<Suc k]) = (if P 0 then 1 else 0) + length (filter (\<lambda>j. P (Suc j)) [0..<k])"
proof -
  have "[0..<Suc k] = 0 # map Suc [0..<k]" by (simp add: upt_conv_Cons map_Suc_upt del: upt_Suc)
  then show ?thesis by (simp add: filter_map comp_def del: upt_Suc)
qed

lemma search_loop_eq:
  "ascending ws \<Longrightarrow> 0 \<le> i \<Longrightarrow> i \<le> 100 \<Longrightarrow> sz = int (length ws) \<Longrightarrow>
   search_loop ws sz i c g =
     Some (c + int (length (filter (\<lambda>j. word_of_nat (g j mod 1000) \<in> set ws) [0..<nat (100 - i)])),
           \<lambda>j. g (j + nat (100 - i)))"
proof (induction ws sz i c g rule: search_loop.induct)
  case (1 ws sz i c g)
  show ?case
  proof (cases "i < 100")
    case False
    with "1.prems" show ?thesis by (subst search_loop.simps) simp
  next
    case True
    let ?P = "\<lambda>j. (word_of_nat (g j mod 1000) :: cint) \<in> set ws"
    have bs: "binary_search ws sz (word_of_nat (g 0 mod 1000)) = Some (?P 0)"
      using binary_search_correct[of sz ws "word_of_nat (g 0 mod 1000)"] "1.prems" by simp
    have rg: "rand g = (g 0, \<lambda>j. g (Suc j))" by (simp add: rand_def)
    have k: "nat (100 - i) = Suc (nat (100 - (i + 1)))" using True by simp
    have step: "search_loop ws sz i c g =
        search_loop ws sz (i + 1) (if ?P 0 then c + 1 else c) (\<lambda>j. g (Suc j))"
      using True by (subst search_loop.simps) (simp add: rg bs)
    also have "\<dots> = Some ((if ?P 0 then c + 1 else c)
          + int (length (filter (\<lambda>j. ?P (Suc j)) [0..<nat (100 - (i + 1))])),
           \<lambda>j. g (Suc (j + nat (100 - (i + 1)))))"
      using True "1.prems" by (intro "1.IH"[OF True rg[symmetric] bs]) auto
    finally show ?thesis
      unfolding k length_filter_upt_Suc by (simp del: upt_Suc)
  qed
qed

lemma search_report_eq:
  assumes "lookup h p = Some vs"
  shows "search_report h p (int (length vs)) g =
     Some (int (length (filter (\<lambda>j. word_of_nat (g j mod 1000) \<in> set vs) [0..<100])),
           \<lambda>j. g (j + 100))"
proof -
  let ?ws = "sort_key sint vs"
  have c: "SearchAnalyzer_ctor h p (int (length vs))
     = Some (h @ [?ws], \<lparr>a_values = length h, a_size = int (length ?ws)\<rparr>)"
    using sorting_ctor_Some(2)[OF assms(1), of "int (length vs)"] by simp
  have asc: "ascending ?ws" by (simp add: ascending_def)
  have "search_loop ?ws (int (length ?ws)) 0 0 g =
     Some (0 + int (length (filter (\<lambda>j. word_of_nat (g j mod 1000) \<in> set ?ws) [0..<nat (100 - 0)])),
           \<lambda>j. g (j + nat (100 - 0)))"
    using asc by (intro search_loop_eq) simp_all
  then show ?thesis
    by (simp add: search_report_def c SearchAnalyzer_analyze_def lookup_new)
qed

text \<open>
  C7: the analyzer returns after exactly 100 calls of \<^verbatim>\<open>rand()\<close>, one per lookup (the
  generator is left 100 numbers further), each key being the number drawn modulo 1000;
  the count it reports is the number of the 100 keys that are values of the sequence.
  So, for every sequence of draws, the count is 100 when the sequence has every value
  from 0 to 999, and 0 when the sequence is empty.
\<close>

theorem search_hundred_lookups:
  assumes "lookup h p = Some vs"
  shows "\<exists>n. search_report h p (int (length vs)) g = Some (n, \<lambda>j. g (j + 100)) \<and>
      n = int (length (filter (\<lambda>j. word_of_nat (g j mod 1000) \<in> set vs) [0..<100])) \<and>
      ((\<forall>k<1000. word_of_nat k \<in> set vs) \<longrightarrow> n = 100) \<and>
      (vs = [] \<longrightarrow> n = 0)"
proof -
  let ?n = "int (length (filter (\<lambda>j. word_of_nat (g j mod 1000) \<in> set vs) [0..<100]))"
  have all: "?n = 100" if "\<forall>k<1000. word_of_nat k \<in> set vs"
  proof -
    have "filter (\<lambda>j. (word_of_nat (g j mod 1000) :: cint) \<in> set vs) [0..<100] = [0..<100]"
      using that by (intro filter_True) simp
    then show ?thesis by simp
  qed
  have none: "?n = 0" if "vs = []" using that by simp
  from search_report_eq[OF assms, of g] all none show ?thesis by blast
qed

theorem search_hundred_lookups_witness:
  "search_report [map word_of_nat [0..<1000]] 0 1000 (\<lambda>j. 7 * j) = Some (100, \<lambda>j. 7 * (j + 100)) \<and>
   search_report [[]] 0 0 (\<lambda>j. 7 * j) = Some (0, \<lambda>j. 7 * (j + 100))"
proof -
  have l: "lookup [map word_of_nat [0..<1000]] 0 = Some (map word_of_nat [0..<1000])"
    "lookup [[]] 0 = Some []"
    by (simp_all add: lookup_def)
  have full: "\<forall>k<1000. (word_of_nat k :: cint) \<in> set (map word_of_nat [0..<1000])" by simp
  have a: "search_report [map word_of_nat [0..<1000]] 0 1000 (\<lambda>j. 7 * j) = Some (100, \<lambda>j. 7 * (j + 100))"
    using search_hundred_lookups[OF l(1), of "\<lambda>j. 7 * j"] full by auto
  have b: "search_report [[]] 0 0 (\<lambda>j. 7 * j) = Some (0, \<lambda>j. 7 * (j + 100))"
    using search_hundred_lookups[OF l(2), of "\<lambda>j. 7 * j"] by auto
  show ?thesis by (rule conjI[OF a b])
qed

end
